theory Spec2Isabelle
  imports Complex_Main "HOL-Library.Word" "HOL-Library.While_Combinator"
begin

section \<open>Pixel buffers\<close>

text \<open>
  An \<open>ImageData\<close> object: its dimensions and a \<open>Uint8ClampedArray\<close> holding four bytes
  (R, G, B, A) per pixel, row by row. The browser only builds objects whose array has
  \<open>4 * width * height\<close> entries; \<open>wf_image\<close> states it. The content of a canvas is
  identified with the \<open>ImageData\<close> that \<open>getImageData\<close> reads from it and
  \<open>putImageData\<close> writes to it.
\<close>

type_synonym byte = "8 word"

record imagedata =
  width :: nat
  height :: nat
  data :: "byte list"

definition wf_image :: "imagedata \<Rightarrow> bool" where
  "wf_image m \<longleftrightarrow> length (data m) = 4 * width m * height m"

text \<open>Reading a typed array at any integer index: \<open>undefined\<close> (None) outside the array.\<close>

definition rd :: "byte list \<Rightarrow> int \<Rightarrow> byte option" where
  "rd d i = (if 0 \<le> i \<and> i < int (length d) then Some (d ! nat i) else None)"

text \<open>\<open>v > n\<close> on a value that may be \<open>undefined\<close>: the comparison is false for \<open>undefined\<close>.\<close>

definition gt_js :: "byte option \<Rightarrow> byte \<Rightarrow> bool" where
  "gt_js v n = (case v of None \<Rightarrow> False | Some b \<Rightarrow> b > n)"

text \<open>The assignments \<open>a[i] = r; a[i + 1] = g; a[i + 2] = b\<close> (and \<open>a[i + 3] = al\<close>).\<close>

definition put3 :: "nat \<Rightarrow> byte \<Rightarrow> byte \<Rightarrow> byte \<Rightarrow> byte list \<Rightarrow> byte list" where
  "put3 i r g b d = d[i := r, i + 1 := g, i + 2 := b]"

definition put4 :: "nat \<Rightarrow> byte \<Rightarrow> byte \<Rightarrow> byte \<Rightarrow> byte \<Rightarrow> byte list \<Rightarrow> byte list" where
  "put4 i r g b al d = d[i := r, i + 1 := g, i + 2 := b, i + 3 := al]"

text \<open>The loop \<open>for (let i = 0; i < n; i += 4) body\<close> over an array of fixed length \<open>n\<close>.\<close>

function for_rgba :: "nat \<Rightarrow> nat \<Rightarrow> (nat \<Rightarrow> byte list \<Rightarrow> byte list) \<Rightarrow> byte list \<Rightarrow> byte list" where
  "for_rgba i n body d = (if i < n then for_rgba (i + 4) n body (body i d) else d)"
  by pat_completeness auto
termination
  by (relation "measure (\<lambda>(i, n, body, d). n - i)") auto

declare for_rgba.simps [simp del]

text \<open>
  The nested loops \<open>for (y = 1; y < height - 1; y++) for (x = 1; x < width - 1; x++)\<close>
  of the morphological passes.
\<close>

definition for_interior :: "nat \<Rightarrow> nat \<Rightarrow> (nat \<Rightarrow> nat \<Rightarrow> byte list \<Rightarrow> byte list) \<Rightarrow> byte list \<Rightarrow> byte list" where
  "for_interior w h body d = fold (\<lambda>y. fold (\<lambda>x. body y x) [1..<w - 1]) [1..<h - 1] d"

section \<open>tools.js: the mask canvas, its binary reading and the history\<close>

datatype tool = Click | Brush | Erase | Lasso | LassoErase

datatype js_error = TypeError

record tools =
  maskCanvas :: imagedata
  overlayCanvas :: imagedata
  currentTool :: tool
  isLassoActive :: bool
  lassoPoints :: "(real \<times> real) list"
  history :: "imagedata list"
  historyStep :: int
  maxHistorySize :: nat

text \<open>\<open>Array.prototype.slice(0, e)\<close>: a negative end counts from the end of the array.\<close>

definition slice0 :: "int \<Rightarrow> 'a list \<Rightarrow> 'a list" where
  "slice0 e xs = take (nat (if e < 0 then int (length xs) + e else e)) xs"

definition saveState :: "tools \<Rightarrow> tools" where
  "saveState s =
     (let h1 = (if historyStep s < int (length (history s)) - 1
                then slice0 (historyStep s + 1) (history s) else history s);
          h2 = h1 @ [maskCanvas s]
      in if length h2 > maxHistorySize s
         then s\<lparr>history := tl h2\<rparr>
         else s\<lparr>history := h2, historyStep := historyStep s + 1\<rparr>)"

text \<open>
  \<open>undo\<close> and \<open>redo\<close> return whether they did something. \<open>putImageData\<close> throws a
  \<open>TypeError\<close> on \<open>undefined\<close>, which is what \<open>history[historyStep]\<close> is outside the array.
\<close>

definition undo :: "tools \<Rightarrow> js_error + bool \<times> tools" where
  "undo s =
     (if historyStep s > 0
      then (let step = historyStep s - 1
            in if step < int (length (history s))
               then Inr (True, s\<lparr>historyStep := step, maskCanvas := history s ! nat step\<rparr>)
               else Inl TypeError)
      else Inr (False, s))"

definition redo :: "tools \<Rightarrow> js_error + bool \<times> tools" where
  "redo s =
     (if historyStep s < int (length (history s)) - 1
      then (let step = historyStep s + 1
            in if 0 \<le> step
               then Inr (True, s\<lparr>historyStep := step, maskCanvas := history s ! nat step\<rparr>)
               else Inl TypeError)
      else Inr (False, s))"

text \<open>
  The constructor: empty history, cursor -1, then \<open>saveState()\<close>. The source fixes the
  capacity \<open>maxHistorySize\<close> at 20; \<open>new_tools\<close> takes it as an argument.
\<close>

definition new_tools :: "nat \<Rightarrow> imagedata \<Rightarrow> imagedata \<Rightarrow> tools" where
  "new_tools capacity mc oc =
     saveState \<lparr>maskCanvas = mc, overlayCanvas = oc, currentTool = Click, isLassoActive = False,
                lassoPoints = [], history = [], historyStep = - 1, maxHistorySize = capacity\<rparr>"

definition MaskTools_new :: "imagedata \<Rightarrow> imagedata \<Rightarrow> tools" where
  "MaskTools_new mc oc = new_tools 20 mc oc"

text \<open>A committed mutation: the mask canvas gets a new content and \<open>saveState()\<close> records it.\<close>

definition commit :: "tools \<Rightarrow> imagedata \<Rightarrow> tools" where
  "commit s m = saveState (s\<lparr>maskCanvas := m\<rparr>)"

definition clearOverlay :: "tools \<Rightarrow> tools" where
  "clearOverlay s =
     s\<lparr>overlayCanvas := (overlayCanvas s)\<lparr>data := replicate (length (data (overlayCanvas s))) 0\<rparr>\<rparr>"

definition cancelLasso :: "tools \<Rightarrow> tools" where
  "cancelLasso s = clearOverlay (s\<lparr>isLassoActive := False, lassoPoints := []\<rparr>)"

text \<open>
  \<open>completeLasso\<close>. Filling the closed path is the browser's work: \<open>fill isErase points canvas\<close>
  stands for \<open>beginPath .. closePath; fill()\<close> under \<open>destination-out\<close> (erase) or
  \<open>source-over\<close> with the green fill style.
\<close>

definition completeLasso ::
  "(bool \<Rightarrow> (real \<times> real) list \<Rightarrow> imagedata \<Rightarrow> imagedata) \<Rightarrow> tools \<Rightarrow> tools" where
  "completeLasso fill s =
     (if length (lassoPoints s) < 3 then cancelLasso s
      else let isErase = (currentTool s = LassoErase);
               s1 = s\<lparr>maskCanvas := fill isErase (lassoPoints s) (maskCanvas s)\<rparr>
           in saveState (cancelLasso s1))"

definition handleDoubleClick ::
  "(bool \<Rightarrow> (real \<times> real) list \<Rightarrow> imagedata \<Rightarrow> imagedata) \<Rightarrow> tools \<Rightarrow> tools" where
  "handleDoubleClick fill s =
     (if (currentTool s = Lasso \<or> currentTool s = LassoErase) \<and> isLassoActive s
      then completeLasso fill s else s)"

text \<open>
  \<open>convertToGreenOverlay\<close> works on a copy of the array. The three versions of tools.js
  differ in the colour only: \<open>(255, 50, 240)\<close>, \<open>(180, 20, 250)\<close> and \<open>(255, 0, 180)\<close> for
  (G, B, A); the colour is the first argument.
\<close>

definition convertToGreenOverlay_px :: "byte \<times> byte \<times> byte \<Rightarrow> nat \<Rightarrow> byte list \<Rightarrow> byte list" where
  "convertToGreenOverlay_px colour i d =
     (case colour of (g, b, al) \<Rightarrow>
        if d ! i > 128 then put4 i 0 g b al d else d[i + 3 := 0])"

definition convertToGreenOverlay :: "byte \<times> byte \<times> byte \<Rightarrow> imagedata \<Rightarrow> imagedata" where
  "convertToGreenOverlay colour imageData =
     \<lparr>width = width imageData, height = height imageData,
      data = for_rgba 0 (length (data imageData)) (convertToGreenOverlay_px colour) (data imageData)\<rparr>"

definition green_bright :: "byte \<times> byte \<times> byte" where "green_bright = (255, 50, 240)"
definition green_dark :: "byte \<times> byte \<times> byte" where "green_dark = (180, 20, 250)"
definition green_plain :: "byte \<times> byte \<times> byte" where "green_plain = (255, 0, 180)"

text \<open>\<open>getMaskData\<close>: the binary reading of the canvas, thresholding the green channel.\<close>

definition getMaskData_px :: "nat \<Rightarrow> byte list \<Rightarrow> byte list" where
  "getMaskData_px i d =
     (let hasGreen = (d ! (i + 1) > 50);
          v = (if hasGreen then 255 else 0)
      in put4 i v v v 255 d)"

definition getMaskData :: "imagedata \<Rightarrow> imagedata" where
  "getMaskData canvas =
     canvas\<lparr>data := for_rgba 0 (length (data canvas)) getMaskData_px (data canvas)\<rparr>"

section \<open>app.js and its enhanced version: export, inversion, refinement\<close>

definition createBinaryMask_px :: "byte list \<Rightarrow> nat \<Rightarrow> byte list \<Rightarrow> byte list" where
  "createBinaryMask_px src i binaryData =
     (let isSelected = (src ! i > 128);
          v = (if isSelected then 255 else 0)
      in put4 i v v v 255 binaryData)"

definition createBinaryMask :: "imagedata \<Rightarrow> imagedata" where
  "createBinaryMask maskData =
     \<lparr>width = width maskData, height = height maskData,
      data = for_rgba 0 (length (data maskData)) (createBinaryMask_px (data maskData))
               (replicate (length (data maskData)) 0)\<rparr>"

text \<open>What \<open>handleDownload\<close> puts on the download canvas.\<close>

definition export_mask :: "imagedata \<Rightarrow> imagedata" where
  "export_mask canvas = createBinaryMask (getMaskData canvas)"

text \<open>
  \<open>handleInvert\<close> (enhanced app): invert the binary reading in place, clear the canvas, put
  the green overlay of the inverted mask on it, save the state.
\<close>

definition invert_px :: "nat \<Rightarrow> byte list \<Rightarrow> byte list" where
  "invert_px i d = (let invertedValue = 255 - d ! i in put3 i invertedValue invertedValue invertedValue d)"

definition invert_canvas :: "byte \<times> byte \<times> byte \<Rightarrow> imagedata \<Rightarrow> imagedata" where
  "invert_canvas colour canvas =
     (let currentMask = getMaskData canvas;
          inverted = currentMask\<lparr>data := for_rgba 0 (length (data currentMask)) invert_px (data currentMask)\<rparr>
      in convertToGreenOverlay colour inverted)"

definition handleInvert :: "byte \<times> byte \<times> byte \<Rightarrow> tools \<Rightarrow> tools" where
  "handleInvert colour s = saveState (s\<lparr>maskCanvas := invert_canvas colour (maskCanvas s)\<rparr>)"

text \<open>
  The morphological passes. Index of the neighbour at offset \<open>(dx, dy)\<close>, as the source
  computes it: \<open>((y + dy) * width + (x + dx)) * 4\<close>. The two inner loops over \<open>dy\<close> and \<open>dx\<close>
  in \<open>-1 .. 1\<close> with their \<open>break\<close> compute an existential over the 3 x 3 block, the
  centre included.
\<close>

definition nbr :: "nat \<Rightarrow> nat \<Rightarrow> nat \<Rightarrow> int \<Rightarrow> int \<Rightarrow> nat" where
  "nbr w y x dy dx = nat (((int y + dy) * int w + (int x + dx)) * 4)"

definition hasWhiteNeighbor :: "byte list \<Rightarrow> nat \<Rightarrow> nat \<Rightarrow> nat \<Rightarrow> bool" where
  "hasWhiteNeighbor src w y x =
     list_ex (\<lambda>dy. list_ex (\<lambda>dx. src ! nbr w y x dy dx > 128) [- 1, 0, 1]) [- 1, 0, 1]"

definition hasBlackNeighbor :: "byte list \<Rightarrow> nat \<Rightarrow> nat \<Rightarrow> nat \<Rightarrow> bool" where
  "hasBlackNeighbor src w y x =
     list_ex (\<lambda>dy. list_ex (\<lambda>dx. src ! nbr w y x dy dx < 128) [- 1, 0, 1]) [- 1, 0, 1]"

text \<open>
  \<open>refineMaskEdges\<close> (app.js, \<open>iterations = 1\<close> by default). The dilation reads \<open>data\<close> and
  writes its copy \<open>dilated\<close>; the erosion reads \<open>dilated\<close> and writes \<open>data\<close>.
\<close>

definition dilate_px :: "byte list \<Rightarrow> nat \<Rightarrow> nat \<Rightarrow> nat \<Rightarrow> byte list \<Rightarrow> byte list" where
  "dilate_px src w y x dilated =
     (let idx = (y * w + x) * 4
      in if src ! idx > 128 then dilated
         else if hasWhiteNeighbor src w y x then put3 idx 255 255 255 dilated
         else dilated)"

definition erode_back_px :: "byte list \<Rightarrow> nat \<Rightarrow> nat \<Rightarrow> nat \<Rightarrow> byte list \<Rightarrow> byte list" where
  "erode_back_px dilated w y x dat =
     (let idx = (y * w + x) * 4
      in if dilated ! idx < 128 then dat
         else if hasBlackNeighbor dilated w y x then put3 idx 0 0 0 dat
         else put3 idx (dilated ! idx) (dilated ! (idx + 1)) (dilated ! (idx + 2)) dat)"

definition closing_round :: "nat \<Rightarrow> nat \<Rightarrow> byte list \<Rightarrow> byte list" where
  "closing_round w h dat =
     (let dilated = for_interior w h (dilate_px dat w) dat
      in for_interior w h (erode_back_px dilated w) dat)"

text \<open>The loop \<open>for (let iter = 0; iter < iterations; iter++)\<close>.\<close>

primrec rounds :: "nat \<Rightarrow> (byte list \<Rightarrow> byte list) \<Rightarrow> byte list \<Rightarrow> byte list" where
  "rounds 0 f d = d"
| "rounds (Suc n) f d = rounds n f (f d)"

definition refineMaskEdges :: "imagedata \<Rightarrow> nat \<Rightarrow> imagedata" where
  "refineMaskEdges maskData iterations =
     \<lparr>width = width maskData, height = height maskData,
      data = rounds iterations (closing_round (width maskData) (height maskData)) (data maskData)\<rparr>"

text \<open>
  \<open>refineMaskEdgesEnhanced\<close> (enhanced app, \<open>iterations = 2\<close> by default): the erosion comes
  first, reading \<open>data\<close> and writing its copy \<open>eroded\<close>; the dilation reads \<open>eroded\<close> and
  writes \<open>data\<close>.
\<close>

definition erode_px :: "byte list \<Rightarrow> nat \<Rightarrow> nat \<Rightarrow> nat \<Rightarrow> byte list \<Rightarrow> byte list" where
  "erode_px src w y x eroded =
     (let idx = (y * w + x) * 4
      in if src ! idx < 128 then eroded
         else if hasBlackNeighbor src w y x then put3 idx 0 0 0 eroded
         else eroded)"

definition dilate_back_px :: "byte list \<Rightarrow> nat \<Rightarrow> nat \<Rightarrow> nat \<Rightarrow> byte list \<Rightarrow> byte list" where
  "dilate_back_px eroded w y x dat =
     (let idx = (y * w + x) * 4
      in if eroded ! idx > 128 then dat
         else if hasWhiteNeighbor eroded w y x then put3 idx 255 255 255 dat
         else put3 idx (eroded ! idx) (eroded ! (idx + 1)) (eroded ! (idx + 2)) dat)"

definition opening_round :: "nat \<Rightarrow> nat \<Rightarrow> byte list \<Rightarrow> byte list" where
  "opening_round w h dat =
     (let eroded = for_interior w h (erode_px dat w) dat
      in for_interior w h (dilate_back_px eroded w) dat)"

definition refineMaskEdgesEnhanced :: "imagedata \<Rightarrow> nat \<Rightarrow> imagedata" where
  "refineMaskEdgesEnhanced maskData iterations =
     \<lparr>width = width maskData, height = height maskData,
      data = rounds iterations (opening_round (width maskData) (height maskData)) (data maskData)\<rparr>"

section \<open>segmentation.js: the click mask\<close>

text \<open>
  The segmentation is an \<open>ImageData\<close> whose red byte is the class of the pixel, 0 for the
  background. \<open>_findConnectedComponent\<close> is a breadth-first flood fill: the state of its
  \<open>while (queue.length > 0)\<close> loop is the queue of coordinates, the set of visited linear
  indices and the mask array; \<open>ff_step\<close> is one iteration. A loop that never stops has no
  result (\<open>None\<close>).
\<close>

record ff_state =
  queue :: "(int \<times> int) list"
  visited :: "nat set"
  maskArray :: "byte list"

definition ff_step :: "byte list \<Rightarrow> nat \<Rightarrow> nat \<Rightarrow> byte option \<Rightarrow> ff_state \<Rightarrow> ff_state" where
  "ff_step dat w h targetClass s =
     (case queue s of
        [] \<Rightarrow> s
      | (x, y) # rest \<Rightarrow>
          if x < 0 \<or> x \<ge> int w \<or> y < 0 \<or> y \<ge> int h then s\<lparr>queue := rest\<rparr>
          else let idx = nat (y * int w + x);
                   pixelIdx = idx * 4
               in if idx \<in> visited s then s\<lparr>queue := rest\<rparr>
                  else let pixelClass = dat ! pixelIdx
                       in if Some pixelClass = targetClass
                          then \<lparr>queue = rest @ [(x + 1, y), (x - 1, y), (x, y + 1), (x, y - 1)],
                                visited = insert idx (visited s),
                                maskArray = put4 pixelIdx 255 255 255 255 (maskArray s)\<rparr>
                          else \<lparr>queue = rest, visited = insert idx (visited s),
                                maskArray = maskArray s\<rparr>)"

definition ff_init :: "byte list \<Rightarrow> int \<Rightarrow> int \<Rightarrow> ff_state" where
  "ff_init maskArray0 startX startY =
     \<lparr>queue = [(startX, startY)], visited = {}, maskArray = maskArray0\<rparr>"

definition findConnectedComponent ::
  "byte list \<Rightarrow> byte list \<Rightarrow> nat \<Rightarrow> nat \<Rightarrow> int \<Rightarrow> int \<Rightarrow> byte option \<Rightarrow> byte list option" where
  "findConnectedComponent dat maskArray0 w h startX startY targetClass =
     map_option maskArray
       (while_option (\<lambda>s. queue s \<noteq> []) (ff_step dat w h targetClass)
          (ff_init maskArray0 startX startY))"

text \<open>
  \<open>createClickMask\<close> of the segmentation module with connected components (used by the
  enhanced app). \<open>new ImageData(width, height)\<close> is all zero.
\<close>

definition createClickMask :: "imagedata \<Rightarrow> real \<Rightarrow> real \<Rightarrow> imagedata option" where
  "createClickMask imageData clickX clickY =
     (let w = width imageData; h = height imageData; dat = data imageData;
          pixelIndex = (\<lfloor>clickY\<rfloor> * int w + \<lfloor>clickX\<rfloor>) * 4;
          clickedClass = rd dat pixelIndex;
          maskArray0 = replicate (4 * w * h) 0
      in if clickedClass = Some 0
         then Some \<lparr>width = w, height = h,
                    data = for_rgba 0 (length maskArray0) (\<lambda>i. put4 i 0 0 0 255) maskArray0\<rparr>
         else map_option (\<lambda>a. \<lparr>width = w, height = h, data = a\<rparr>)
                (findConnectedComponent dat maskArray0 w h \<lfloor>clickX\<rfloor> \<lfloor>clickY\<rfloor> clickedClass))"

text \<open>
  \<open>createClickMask\<close> of the first segmentation module (used by app.js): after a click on
  an object it selects every pixel that is not background.
\<close>

definition class_px :: "byte list \<Rightarrow> nat \<Rightarrow> byte list \<Rightarrow> byte list" where
  "class_px src i arr =
     (let isTargetClass = (src ! i > 0);
          maskValue = (if isTargetClass then 255 else 0)
      in put4 i maskValue maskValue maskValue 255 arr)"

definition createClickMask_class :: "imagedata \<Rightarrow> real \<Rightarrow> real \<Rightarrow> imagedata" where
  "createClickMask_class segmentationData clickX clickY =
     (let w = width segmentationData; h = height segmentationData; dat = data segmentationData;
          pixelIndex = (\<lfloor>clickY\<rfloor> * int w + \<lfloor>clickX\<rfloor>) * 4;
          clickedClass = rd dat pixelIndex;
          maskArray0 = replicate (4 * w * h) 0
      in if clickedClass = Some 0
         then \<lparr>width = w, height = h,
               data = for_rgba 0 (length maskArray0) (\<lambda>i. put4 i 0 0 0 255) maskArray0\<rparr>
         else \<lparr>width = w, height = h,
               data = for_rgba 0 (length dat) (class_px dat) maskArray0\<rparr>)"

section \<open>The click handler\<close>

text \<open>
  Drawing one canvas onto another under a \<open>globalCompositeOperation\<close> is the browser's
  work. The handlers take it as the argument \<open>draw op source destination\<close>, which gives the
  new content of the destination canvas.
\<close>

datatype composite_op = SourceOver | Lighter | DestinationOut

type_synonym compositor = "composite_op \<Rightarrow> imagedata \<Rightarrow> imagedata \<Rightarrow> imagedata"

definition clearMask :: "tools \<Rightarrow> tools" where
  "clearMask s =
     saveState (s\<lparr>maskCanvas := (maskCanvas s)\<lparr>data := replicate (length (data (maskCanvas s))) 0\<rparr>\<rparr>)"

definition applySegmentation ::
  "compositor \<Rightarrow> byte \<times> byte \<times> byte \<Rightarrow> imagedata \<Rightarrow> bool \<Rightarrow> tools \<Rightarrow> tools" where
  "applySegmentation draw colour imageData isAdditive s =
     (let s1 = (if \<not> isAdditive then clearMask s else s);
          greenImageData = convertToGreenOverlay colour imageData;
          s2 = s1\<lparr>maskCanvas := draw (if isAdditive then Lighter else SourceOver) greenImageData
                                   (maskCanvas s1)\<rparr>
      in saveState s2)"

text \<open>The loop \<open>for (i = 0; i < length; i += 4) if (a[i] > 0) { hasSelection = true; break; }\<close>.\<close>

definition hasSelection :: "imagedata \<Rightarrow> bool" where
  "hasSelection objectMask =
     list_ex (\<lambda>i. data objectMask ! i > 0) (filter (\<lambda>i. 4 dvd i) [0..<length (data objectMask)])"

text \<open>
  app.js. The handler is modelled where an image is loaded, the model is ready and no
  other click is being processed; the segmentation of the image is an argument. It draws
  the object mask itself under \<open>destination-out\<close>.
\<close>

definition subtractMaskFromSelection :: "compositor \<Rightarrow> imagedata \<Rightarrow> tools \<Rightarrow> tools" where
  "subtractMaskFromSelection draw objectMask s =
     saveState (s\<lparr>maskCanvas := draw DestinationOut objectMask (maskCanvas s)\<rparr>)"

definition handleCanvasClick ::
  "compositor \<Rightarrow> byte \<times> byte \<times> byte \<Rightarrow> imagedata \<Rightarrow> real \<Rightarrow> real \<Rightarrow> tools \<Rightarrow> tools" where
  "handleCanvasClick draw colour segmentationData x y s =
     (if currentTool s \<noteq> Click then s
      else let maskData = getMaskData (maskCanvas s);
               pixelIndex = (\<lfloor>y\<rfloor> * int (width maskData) + \<lfloor>x\<rfloor>) * 4;
               isInSelection = gt_js (rd (data maskData) pixelIndex) 128;
               objectMask = createClickMask_class segmentationData x y
           in if hasSelection objectMask
              then (if isInSelection then subtractMaskFromSelection draw objectMask s
                    else applySegmentation draw colour objectMask True s)
              else s)"

text \<open>
  The enhanced app. Its handler never reads the mask: Ctrl decides. It draws the green
  overlay of the object mask under \<open>destination-out\<close>.
\<close>

record app =
  maskTools :: tools
  isCtrlPressed :: bool
  clickCount :: nat

definition subtractMaskFromSelection_enhanced ::
  "compositor \<Rightarrow> byte \<times> byte \<times> byte \<Rightarrow> imagedata \<Rightarrow> tools \<Rightarrow> tools" where
  "subtractMaskFromSelection_enhanced draw colour objectMask s =
     saveState (s\<lparr>maskCanvas := draw DestinationOut (convertToGreenOverlay colour objectMask)
                                   (maskCanvas s)\<rparr>)"

definition handleCanvasClick_enhanced ::
  "compositor \<Rightarrow> byte \<times> byte \<times> byte \<Rightarrow> imagedata \<Rightarrow> real \<Rightarrow> real \<Rightarrow> app \<Rightarrow> app option" where
  "handleCanvasClick_enhanced draw colour segmentationResult x y a =
     (if currentTool (maskTools a) \<noteq> Click then Some a
      else case createClickMask segmentationResult x y of
             None \<Rightarrow> None
           | Some objectMask \<Rightarrow>
               Some (if hasSelection objectMask
                     then (let a1 = a\<lparr>clickCount := clickCount a + 1\<rparr>
                           in if isCtrlPressed a
                              then a1\<lparr>maskTools := subtractMaskFromSelection_enhanced draw colour
                                                     objectMask (maskTools a)\<rparr>
                              else a1\<lparr>maskTools := applySegmentation draw colour objectMask True
                                                     (maskTools a)\<rparr>)
                     else a))"

section \<open>The mask as a grid of booleans\<close>

text \<open>
  A pixel is selected when its red byte is above 128 (the reading of \<open>createBinaryMask\<close>,
  of \<open>convertToGreenOverlay\<close> and of the click handler). A mask is binary when every red
  byte is 0 or 255, as in every mask that \<open>getMaskData\<close> returns.
\<close>

definition is_sel :: "imagedata \<Rightarrow> nat \<Rightarrow> nat \<Rightarrow> bool" where
  "is_sel m x y \<longleftrightarrow> x < width m \<and> y < height m \<and> data m ! ((y * width m + x) * 4) > 128"

definition binary_mask :: "imagedata \<Rightarrow> bool" where
  "binary_mask m \<longleftrightarrow>
     list_all (\<lambda>k. data m ! (4 * k) = 0 \<or> data m ! (4 * k) = 255) [0..<width m * height m]"

text \<open>
  The passes in the words of the specification, on grids of booleans. Only a pixel with a
  full 3 x 3 neighbourhood is touched: dilation selects it when one of its eight
  neighbours is selected, erosion unselects it when one of them is not.
\<close>

definition interior :: "nat \<Rightarrow> nat \<Rightarrow> nat \<Rightarrow> nat \<Rightarrow> bool" where
  "interior w h x y \<longleftrightarrow> 1 \<le> x \<and> x + 1 < w \<and> 1 \<le> y \<and> y + 1 < h"

definition nbrs8 :: "nat \<Rightarrow> nat \<Rightarrow> (nat \<times> nat) list" where
  "nbrs8 x y = [(x - 1, y - 1), (x, y - 1), (x + 1, y - 1), (x - 1, y), (x + 1, y),
                (x - 1, y + 1), (x, y + 1), (x + 1, y + 1)]"

definition spec_dilate :: "nat \<Rightarrow> nat \<Rightarrow> (nat \<Rightarrow> nat \<Rightarrow> bool) \<Rightarrow> nat \<Rightarrow> nat \<Rightarrow> bool" where
  "spec_dilate w h g x y =
     (if interior w h x y then g x y \<or> list_ex (\<lambda>(a, b). g a b) (nbrs8 x y) else g x y)"

definition spec_erode :: "nat \<Rightarrow> nat \<Rightarrow> (nat \<Rightarrow> nat \<Rightarrow> bool) \<Rightarrow> nat \<Rightarrow> nat \<Rightarrow> bool" where
  "spec_erode w h g x y =
     (if interior w h x y then g x y \<and> list_all (\<lambda>(a, b). g a b) (nbrs8 x y) else g x y)"

definition spec_closing :: "nat \<Rightarrow> nat \<Rightarrow> (nat \<Rightarrow> nat \<Rightarrow> bool) \<Rightarrow> nat \<Rightarrow> nat \<Rightarrow> bool" where
  "spec_closing w h g = spec_erode w h (spec_dilate w h g)"

definition spec_opening :: "nat \<Rightarrow> nat \<Rightarrow> (nat \<Rightarrow> nat \<Rightarrow> bool) \<Rightarrow> nat \<Rightarrow> nat \<Rightarrow> bool" where
  "spec_opening w h g = spec_dilate w h (spec_erode w h g)"

text \<open>The four bytes of the pixels of the outermost ring are the same in two masks.\<close>

definition same_border :: "imagedata \<Rightarrow> imagedata \<Rightarrow> bool" where
  "same_border m m' \<longleftrightarrow>
     (\<forall>x y c. x < width m \<and> y < height m \<and> \<not> interior (width m) (height m) x y \<and> c < 4
        \<longrightarrow> data m' ! ((y * width m + x) * 4 + c) = data m ! ((y * width m + x) * 4 + c))"

text \<open>
  Pixels with integer coordinates, as the flood fill has them. The region of a seed, in
  the words of the specification: the pixels of the class of the seed that can be reached
  from it through 4-connected pixels of that class.
\<close>

definition in_image :: "nat \<Rightarrow> nat \<Rightarrow> int \<times> int \<Rightarrow> bool" where
  "in_image w h p \<longleftrightarrow> 0 \<le> fst p \<and> fst p < int w \<and> 0 \<le> snd p \<and> snd p < int h"

definition class_at :: "imagedata \<Rightarrow> int \<times> int \<Rightarrow> byte" where
  "class_at seg p = data seg ! nat ((snd p * int (width seg) + fst p) * 4)"

definition adjacent4 :: "int \<times> int \<Rightarrow> int \<times> int \<Rightarrow> bool" where
  "adjacent4 p q \<longleftrightarrow>
     q = (fst p + 1, snd p) \<or> q = (fst p - 1, snd p) \<or> q = (fst p, snd p + 1) \<or> q = (fst p, snd p - 1)"

inductive_set region :: "imagedata \<Rightarrow> byte \<Rightarrow> int \<times> int \<Rightarrow> (int \<times> int) set"
  for seg :: imagedata and c :: byte and seed :: "int \<times> int" where
  seed: "in_image (width seg) (height seg) seed \<Longrightarrow> class_at seg seed = c \<Longrightarrow> seed \<in> region seg c seed"
| step: "p \<in> region seg c seed \<Longrightarrow> adjacent4 p q \<Longrightarrow> in_image (width seg) (height seg) q
         \<Longrightarrow> class_at seg q = c \<Longrightarrow> q \<in> region seg c seed"

definition selected_px :: "imagedata \<Rightarrow> (int \<times> int) set" where
  "selected_px m = {p. 0 \<le> fst p \<and> 0 \<le> snd p \<and> is_sel m (nat (fst p)) (nat (snd p))}"

section \<open>Auxiliary notions and concrete inputs\<close>

text \<open>
  A loop body is local when it keeps the length, writes only the four bytes of its own
  pixel, and what it writes there depends only on those four bytes.
\<close>

definition px_local :: "(nat \<Rightarrow> byte list \<Rightarrow> byte list) \<Rightarrow> bool" where
  "px_local body \<longleftrightarrow>
     (\<forall>i d. length (body i d) = length d) \<and>
     (\<forall>i d j. j < i \<or> i + 4 \<le> j \<longrightarrow> body i d ! j = d ! j) \<and>
     (\<forall>i d d' k. length d = length d' \<and> (\<forall>k. i \<le> k \<and> k < i + 4 \<longrightarrow> d ! k = d' ! k)
                 \<and> i \<le> k \<and> k < i + 4 \<and> k < length d \<longrightarrow> body i d ! k = body i d' ! k)"

text \<open>A canvas of two pixels: one drawn with the translucent green tint, one nearly black.\<close>

definition tinted :: imagedata where
  "tinted = \<lparr>width = 2, height = 1, data = [0, 255, 50, 240, 3, 40, 9, 17]\<rparr>"

text \<open>Freshly constructed tools over a given mask canvas.\<close>

definition tools0 :: "imagedata \<Rightarrow> tools" where
  "tools0 c = MaskTools_new c \<lparr>width = 0, height = 0, data = []\<rparr>"

text \<open>The cursor is on the last snapshot, and that snapshot is the current mask.\<close>

definition at_tip :: "tools \<Rightarrow> bool" where
  "at_tip s \<longleftrightarrow> historyStep s = int (length (history s)) - 1
                 \<and> (history s \<noteq> [] \<longrightarrow> last (history s) = maskCanvas s)"

definition cleared :: imagedata where
  "cleared = \<lparr>width = 2, height = 1, data = replicate 8 0\<rparr>"

text \<open>An active lasso of two vertices, and a path fill that draws nothing.\<close>

definition lasso_two_points :: tools where
  "lasso_two_points =
     (tools0 tinted)\<lparr>currentTool := Lasso, isLassoActive := True, lassoPoints := [(1, 1), (2, 3)]\<rparr>"

definition no_fill :: "bool \<Rightarrow> (real \<times> real) list \<Rightarrow> imagedata \<Rightarrow> imagedata" where
  "no_fill isErase points canvas = canvas"

text \<open>
  The bodies of the morphological passes all have one shape: depending on the row and the
  column only, either leave the target alone or write three colour bytes at the pixel.
\<close>

definition px_write :: "(nat \<Rightarrow> nat \<Rightarrow> (byte \<times> byte \<times> byte) option) \<Rightarrow> nat \<Rightarrow> nat \<Rightarrow> nat \<Rightarrow> byte list \<Rightarrow> byte list" where
  "px_write f w y x d = (case f y x of None \<Rightarrow> d | Some (r, g, b) \<Rightarrow> put3 ((y * w + x) * 4) r g b d)"

definition px_val :: "(byte \<times> byte \<times> byte) option \<Rightarrow> nat \<Rightarrow> byte \<Rightarrow> byte" where
  "px_val v c old =
     (case v of None \<Rightarrow> old
      | Some (r, g, b) \<Rightarrow> if c = 0 then r else if c = 1 then g else if c = 2 then b else old)"

text \<open>Index of the red byte of pixel \<open>(x, y)\<close>; selection and binarity on the bare array.\<close>

definition pidx :: "nat \<Rightarrow> nat \<Rightarrow> nat \<Rightarrow> nat" where
  "pidx w x y = (y * w + x) * 4"

definition sel :: "nat \<Rightarrow> nat \<Rightarrow> byte list \<Rightarrow> nat \<Rightarrow> nat \<Rightarrow> bool" where
  "sel w h d x y \<longleftrightarrow> x < w \<and> y < h \<and> d ! pidx w x y > 128"

definition bin :: "nat \<Rightarrow> nat \<Rightarrow> byte list \<Rightarrow> bool" where
  "bin w h d \<longleftrightarrow> (\<forall>x y. x < w \<and> y < h \<longrightarrow> d ! pidx w x y = 0 \<or> d ! pidx w x y = 255)"

text \<open>A round that acts on the selection as \<open>F\<close> and keeps length, binarity and border.\<close>

definition round_as :: "nat \<Rightarrow> nat \<Rightarrow> (byte list \<Rightarrow> byte list) \<Rightarrow> ((nat \<Rightarrow> nat \<Rightarrow> bool) \<Rightarrow> nat \<Rightarrow> nat \<Rightarrow> bool) \<Rightarrow> bool" where
  "round_as w h f F \<longleftrightarrow>
     (\<forall>d. length d = 4 * w * h \<and> bin w h d \<longrightarrow>
        sel w h (f d) = F (sel w h d) \<and> bin w h (f d) \<and> length (f d) = 4 * w * h \<and>
        (\<forall>x y c. x < w \<and> y < h \<and> c < 4 \<and> \<not> interior w h x y
            \<longrightarrow> f d ! (pidx w x y + c) = d ! (pidx w x y + c)))"

text \<open>A binary 5 x 5 mask whose only selected pixel is the centre.\<close>

definition dot5 :: imagedata where
  "dot5 = \<lparr>width = 5, height = 5,
            data = concat (map (\<lambda>k. if k = 12 then [255, 255, 255, 255] else [0, 0, 0, 255]) [0..<25])\<rparr>"

text \<open>
  The flood fill. Its potential falls at every iteration: the length of the queue plus four
  times the number of linear indices of the image not yet visited.
\<close>

definition ff_potential :: "nat \<Rightarrow> nat \<Rightarrow> ff_state \<Rightarrow> nat" where
  "ff_potential w h s = length (queue s) + 4 * card ({..<w * h} - visited s)"

text \<open>
  The linear index of a pixel, the pixels the fill has marked, and the invariant of the
  loop: the mask is white exactly on the marked pixels; marked pixels and the queued
  pixels of the target class lie in the region; the seed and the neighbours of every
  marked pixel are queued or visited.
\<close>

definition lin :: "nat \<Rightarrow> int \<times> int \<Rightarrow> nat" where
  "lin w p = nat (snd p * int w + fst p)"

definition ff_marked :: "imagedata \<Rightarrow> byte \<Rightarrow> ff_state \<Rightarrow> (int \<times> int) set" where
  "ff_marked seg c s =
     {p. in_image (width seg) (height seg) p \<and> lin (width seg) p \<in> visited s \<and> class_at seg p = c}"

definition ff_inv :: "imagedata \<Rightarrow> byte \<Rightarrow> int \<times> int \<Rightarrow> ff_state \<Rightarrow> bool" where
  "ff_inv seg c seed s \<longleftrightarrow>
     length (maskArray s) = 4 * width seg * height seg \<and>
     (\<forall>p. in_image (width seg) (height seg) p \<longrightarrow>
          maskArray s ! (lin (width seg) p * 4) = (if p \<in> ff_marked seg c s then 255 else 0)) \<and>
     ff_marked seg c s \<subseteq> region seg c seed \<and>
     (\<forall>q\<in>set (queue s). in_image (width seg) (height seg) q \<and> class_at seg q = c
          \<longrightarrow> q \<in> region seg c seed) \<and>
     (in_image (width seg) (height seg) seed
          \<longrightarrow> seed \<in> set (queue s) \<or> lin (width seg) seed \<in> visited s) \<and>
     (\<forall>p\<in>ff_marked seg c s. \<forall>q. adjacent4 p q \<and> in_image (width seg) (height seg) q
          \<longrightarrow> q \<in> set (queue s) \<or> lin (width seg) q \<in> visited s)"

text \<open>
  A segmentation of three pixels in a row: an object pixel, a background pixel, an object
  pixel (255 is what the first module stores for every class but the background).
\<close>

definition seg3 :: imagedata where
  "seg3 = \<lparr>width = 3, height = 1,
            data = [255, 255, 255, 255, 0, 0, 0, 255, 255, 255, 255, 255]\<rparr>"

text \<open>
  What the handlers need of the browser's \<open>lighter\<close>, which adds the premultiplied colours
  of source and destination: the result has the size of the destination; where the source
  is fully transparent the destination pixel stays as it is; elsewhere the green byte of
  the result is at least the premultiplied green of the source. \<open>premul c al\<close> is the
  colour byte \<open>c\<close> premultiplied by the alpha byte \<open>al\<close>, rounded to nearest.
\<close>

definition premul :: "byte \<Rightarrow> byte \<Rightarrow> int" where
  "premul c al = (uint c * uint al + 127) div 255"


text \<open>
  A compositor after the Canvas 2D compositing rules, for concrete runs, where the source
  has the size of the destination and is drawn at the origin, as \<open>drawImage(canvas, 0, 0)\<close>
  does in the handlers: colours are premultiplied by alpha, combined channel by channel
  (\<open>lighter\<close>: sum, clamped; \<open>destination-out\<close>: destination times one minus the source
  alpha; \<open>source-over\<close>: source plus destination times one minus the source alpha), and
  divided by the resulting alpha again, every step rounded to nearest on bytes. A fully
  transparent source pixel leaves the destination pixel as it is. Browsers may differ in
  the last bit.
\<close>

definition unpremul :: "int \<Rightarrow> int \<Rightarrow> byte" where
  "unpremul c al = (if al = 0 then 0 else word_of_int (min 255 ((c * 255 + al div 2) div al)))"

definition scaled :: "int \<Rightarrow> int \<Rightarrow> int" where
  "scaled c f = (c * f + 127) div 255"

definition blend :: "composite_op \<Rightarrow> int \<Rightarrow> int \<Rightarrow> int \<Rightarrow> int" where
  "blend op cs cd sa =
     (case op of
        Lighter \<Rightarrow> min 255 (cs + cd)
      | DestinationOut \<Rightarrow> scaled cd (255 - sa)
      | SourceOver \<Rightarrow> min 255 (cs + scaled cd (255 - sa)))"

definition canvas_px :: "composite_op \<Rightarrow> byte list \<Rightarrow> nat \<Rightarrow> byte list \<Rightarrow> byte list" where
  "canvas_px op src i d =
     (if src ! (i + 3) = 0 then d
      else let sa = src ! (i + 3);
               da = d ! (i + 3);
               al = blend op (uint sa) (uint da) (uint sa);
               r = unpremul (blend op (premul (src ! i) sa) (premul (d ! i) da) (uint sa)) al;
               g = unpremul (blend op (premul (src ! (i + 1)) sa) (premul (d ! (i + 1)) da) (uint sa)) al;
               b = unpremul (blend op (premul (src ! (i + 2)) sa) (premul (d ! (i + 2)) da) (uint sa)) al
           in put4 i r g b (word_of_int al) d)"

definition canvas_draw :: compositor where
  "canvas_draw op source destination =
     destination\<lparr>data := for_rgba 0 (length (data destination)) (canvas_px op (data source))
                            (data destination)\<rparr>"

text \<open>The local variable \<open>isInSelection\<close> of the handler of app.js.\<close>

definition isInSelection :: "tools \<Rightarrow> real \<Rightarrow> real \<Rightarrow> bool" where
  "isInSelection s x y =
     gt_js (rd (data (getMaskData (maskCanvas s)))
              ((\<lfloor>y\<rfloor> * int (width (getMaskData (maskCanvas s))) + \<lfloor>x\<rfloor>) * 4)) 128"



definition region3 :: imagedata where
  "region3 = \<lparr>width = 3, height = 1, data = [255, 255, 255, 255, 0, 0, 0, 0, 0, 0, 0, 0]\<rparr>"

definition painted3 :: imagedata where
  "painted3 = \<lparr>width = 3, height = 1, data = [0, 255, 50, 240, 0, 0, 0, 0, 0, 0, 0, 0]\<rparr>"

definition app_plain :: app where
  "app_plain = \<lparr>maskTools = tools0 painted3, isCtrlPressed = False, clickCount = 0\<rparr>"

definition painted3b :: imagedata where
  "painted3b = \<lparr>width = 3, height = 1, data = [0, 255, 50, 240, 0, 255, 50, 240, 0, 0, 0, 0]\<rparr>"

section \<open>Verification\<close>

subsection \<open>Loops over the pixels of an array\<close>

lemma length_put4 [simp]: "length (put4 i r g b a d) = length d"
  by (simp add: put4_def)

lemma length_put3 [simp]: "length (put3 i r g b d) = length d"
  by (simp add: put3_def)

lemma nth_put4:
  "k < length d \<Longrightarrow> put4 i r g b a d ! k =
     (if k = i + 3 then a else if k = i + 2 then b else if k = i + 1 then g
      else if k = i then r else d ! k)"
  by (simp add: put4_def nth_list_update)

lemma nth_put3:
  "k < length d \<Longrightarrow> put3 i r g b d ! k =
     (if k = i + 2 then b else if k = i + 1 then g else if k = i then r else d ! k)"
  by (simp add: put3_def nth_list_update)

lemma nth_put4_frame: "k < i \<or> i + 4 \<le> k \<Longrightarrow> put4 i r g b a d ! k = d ! k"
  by (auto simp: put4_def)

lemma nth_put3_frame: "k < i \<or> i + 3 \<le> k \<Longrightarrow> put3 i r g b d ! k = d ! k"
  by (auto simp: put3_def)

lemma for_rgba_length:
  "(\<forall>i d. length (body i d) = length d) \<Longrightarrow> length (for_rgba i n body d) = length d"
proof (induction i n body d rule: for_rgba.induct)
  case (1 i n body d)
  show ?case
    using 1 by (subst for_rgba.simps) auto
qed

lemma for_rgba_nth:
  "px_local body \<Longrightarrow> 4 dvd i \<Longrightarrow> j < length d \<Longrightarrow> for_rgba i n body d ! j =
           (if i \<le> j \<and> 4 * (j div 4) < n then body (4 * (j div 4)) d ! j else d ! j)"
proof (induction i n body d rule: for_rgba.induct)
  case (1 i n body d)
  let ?p = "4 * (j div 4)"
  from "1.prems"(1) have len: "\<And>i d. length (body i d) = length d"
    and frame: "\<And>i d j. j < i \<or> i + 4 \<le> j \<Longrightarrow> body i d ! j = d ! j"
    and loc: "\<And>i d d' k. length d = length d' \<Longrightarrow> (\<forall>k. i \<le> k \<and> k < i + 4 \<longrightarrow> d ! k = d' ! k)
                 \<Longrightarrow> i \<le> k \<Longrightarrow> k < i + 4 \<Longrightarrow> k < length d \<Longrightarrow> body i d ! k = body i d' ! k"
    unfolding px_local_def by blast+
  show ?case
  proof (cases "i < n")
    case False
    have "i \<le> j \<Longrightarrow> i \<le> ?p" using "1.prems"(2) by presburger
    with False show ?thesis by (subst for_rgba.simps) auto
  next
    case True
    have dv: "4 dvd i + 4" using "1.prems"(2) by simp
    have jl: "j < length (body i d)" using "1.prems"(3) len by simp
    note IH = "1.IH"[OF True "1.prems"(1) dv jl]
    have unf: "for_rgba i n body d = for_rgba (i + 4) n body (body i d)"
      using True by (subst for_rgba.simps) simp
    consider (lt) "j < i" | (mid) "i \<le> j" "j < i + 4" | (ge) "i + 4 \<le> j" by linarith
    then show ?thesis
    proof cases
      case lt
      then show ?thesis using IH unf frame[of j i d] by simp
    next
      case mid
      then have "?p = i" using "1.prems"(2) by presburger
      then show ?thesis using IH unf mid True by simp
    next
      case ge
      then have pge: "i + 4 \<le> ?p" using "1.prems"(2) by presburger
      have agree: "\<forall>k. ?p \<le> k \<and> k < ?p + 4 \<longrightarrow> body i d ! k = d ! k"
        using pge frame[of _ i d] by auto
      have "body ?p (body i d) ! j = body ?p d ! j"
        by (rule loc) (use agree len jl in auto)
      then show ?thesis using IH unf ge frame[of j i d] by simp
    qed
  qed
qed

lemma for_rgba_pixel:
  assumes "px_local body" "4 * k < n" "c < 4" "4 * k + c < length d"
  shows "for_rgba 0 n body d ! (4 * k + c) = body (4 * k) d ! (4 * k + c)"
proof -
  have "(4 * k + c) div 4 = k" using assms(3) by simp
  then show ?thesis
    using for_rgba_nth[where body = body and i = 0 and n = n and d = d and j = "4 * k + c"] assms by simp
qed

lemma px_local_length: "px_local body \<Longrightarrow> length (for_rgba i n body d) = length d"
  by (rule for_rgba_length) (simp add: px_local_def)

lemma px_local_getMaskData: "px_local getMaskData_px"
  unfolding px_local_def getMaskData_px_def Let_def
  by (auto simp: nth_put4 nth_put4_frame)

lemma px_local_createBinaryMask: "px_local (createBinaryMask_px src)"
  unfolding px_local_def createBinaryMask_px_def Let_def
  by (auto simp: nth_put4 nth_put4_frame)

lemma px_local_invert: "px_local invert_px"
  unfolding px_local_def invert_px_def Let_def
  by (auto simp: nth_put3 nth_put3_frame)

lemma nth_update_any: "xs[i := x] ! j = (if i = j \<and> i < length xs then x else xs ! j)"
  by (cases "i < length xs") (auto simp: nth_list_update list_update_beyond)

lemma px_local_overlay: "px_local (convertToGreenOverlay_px colour)"
  unfolding px_local_def convertToGreenOverlay_px_def
  by (auto simp: nth_put4 nth_put4_frame nth_update_any split: prod.splits)

subsection \<open>The exported mask is binary\<close>

text \<open>Channel \<open>c\<close> of pixel \<open>k\<close>.\<close>

lemma getMaskData_pixel:
  assumes "4 * k + 3 < length (data canvas)" "c < 4"
  shows "data (getMaskData canvas) ! (4 * k + c) =
           (if c = 3 then 255 else if data canvas ! (4 * k + 1) > 50 then 255 else 0)"
proof -
  have "data (getMaskData canvas) ! (4 * k + c) = getMaskData_px (4 * k) (data canvas) ! (4 * k + c)"
    unfolding getMaskData_def using assms
    by (simp add: for_rgba_pixel[OF px_local_getMaskData])
  also have "\<dots> = (if c = 3 then 255 else if data canvas ! (4 * k + 1) > 50 then 255 else 0)"
    using assms by (auto simp: getMaskData_px_def Let_def nth_put4)
  finally show ?thesis .
qed

lemma getMaskData_dims [simp]:
  "width (getMaskData c) = width c" "height (getMaskData c) = height c"
  "length (data (getMaskData c)) = length (data c)"
  by (simp_all add: getMaskData_def px_local_length[OF px_local_getMaskData])

lemma createBinaryMask_pixel:
  assumes "4 * k + 3 < length (data m)" "c < 4"
  shows "data (createBinaryMask m) ! (4 * k + c) =
           (if c = 3 then 255 else if data m ! (4 * k) > 128 then 255 else 0)"
proof -
  have "data (createBinaryMask m) ! (4 * k + c)
          = createBinaryMask_px (data m) (4 * k) (replicate (length (data m)) 0) ! (4 * k + c)"
    unfolding createBinaryMask_def using assms
    by (simp add: for_rgba_pixel[OF px_local_createBinaryMask])
  also have "\<dots> = (if c = 3 then 255 else if data m ! (4 * k) > 128 then 255 else 0)"
    using assms by (auto simp: createBinaryMask_px_def Let_def nth_put4)
  finally show ?thesis .
qed

lemma createBinaryMask_dims [simp]:
  "width (createBinaryMask c) = width c" "height (createBinaryMask c) = height c"
  "length (data (createBinaryMask c)) = length (data c)"
  by (simp_all add: createBinaryMask_def px_local_length[OF px_local_createBinaryMask])

text \<open>
  Claim C6. Whatever the mask canvas holds (tinted, translucent or arbitrary bytes), the
  buffer built for download, \<open>createBinaryMask (getMaskData canvas)\<close>, has at every pixel
  three equal colour bytes that are exactly 0 or exactly 255, and alpha 255; it has the
  dimensions of the canvas.
\<close>

theorem export_is_binary:
  assumes "wf_image canvas" "k < width canvas * height canvas"
  shows "(data (export_mask canvas) ! (4 * k) = 0 \<or> data (export_mask canvas) ! (4 * k) = 255)
       \<and> data (export_mask canvas) ! (4 * k + 1) = data (export_mask canvas) ! (4 * k)
       \<and> data (export_mask canvas) ! (4 * k + 2) = data (export_mask canvas) ! (4 * k)
       \<and> data (export_mask canvas) ! (4 * k + 3) = 255
       \<and> wf_image (export_mask canvas)
       \<and> width (export_mask canvas) = width canvas \<and> height (export_mask canvas) = height canvas"
proof -
  have len: "4 * k + 3 < length (data (getMaskData canvas))"
    using assms by (simp add: wf_image_def)
  have wf: "wf_image (export_mask canvas)"
    using assms(1) by (simp add: wf_image_def export_mask_def)
  show ?thesis
    using createBinaryMask_pixel[OF len, of 0] createBinaryMask_pixel[OF len, of 1]
      createBinaryMask_pixel[OF len, of 2] createBinaryMask_pixel[OF len, of 3] wf
    by (simp add: export_mask_def)
qed

theorem export_is_binary_witness:
  "wf_image tinted \<and> (1::nat) < width tinted * height tinted
   \<and> (data (export_mask tinted) ! (4 * 1) = 0 \<or> data (export_mask tinted) ! (4 * 1) = 255)
   \<and> data (export_mask tinted) ! (4 * 1 + 1) = data (export_mask tinted) ! (4 * 1)
   \<and> data (export_mask tinted) ! (4 * 1 + 2) = data (export_mask tinted) ! (4 * 1)
   \<and> data (export_mask tinted) ! (4 * 1 + 3) = 255
   \<and> wf_image (export_mask tinted)
   \<and> width (export_mask tinted) = width tinted \<and> height (export_mask tinted) = height tinted"
proof -
  have h1: "wf_image tinted" by (simp add: wf_image_def tinted_def)
  have h2: "(1::nat) < width tinted * height tinted" by (simp add: tinted_def)
  show ?thesis using h1 h2 export_is_binary[OF h1 h2] by blast
qed

subsection \<open>Inverting twice\<close>

lemma saveState_maskCanvas [simp]: "maskCanvas (saveState s) = maskCanvas s"
  by (simp add: saveState_def Let_def)

lemma invert_loop_pixel:
  assumes "4 * k + 3 < length d" "c < 4"
  shows "for_rgba 0 (length d) invert_px d ! (4 * k + c) =
           (if c = 3 then d ! (4 * k + 3) else 255 - d ! (4 * k))"
proof -
  have "for_rgba 0 (length d) invert_px d ! (4 * k + c) = invert_px (4 * k) d ! (4 * k + c)"
    using assms by (simp add: for_rgba_pixel[OF px_local_invert])
  also have "\<dots> = (if c = 3 then d ! (4 * k + 3) else 255 - d ! (4 * k))"
    using assms by (auto simp: invert_px_def Let_def nth_put3)
  finally show ?thesis .
qed

lemma overlay_green:
  assumes "4 * k + 3 < length (data m)"
  shows "data (convertToGreenOverlay (g, b, al) m) ! (4 * k + 1) =
           (if data m ! (4 * k) > 128 then g else data m ! (4 * k + 1))"
proof -
  have "data (convertToGreenOverlay (g, b, al) m) ! (4 * k + 1)
          = convertToGreenOverlay_px (g, b, al) (4 * k) (data m) ! (4 * k + 1)"
    unfolding convertToGreenOverlay_def
    using assms for_rgba_pixel[OF px_local_overlay, where k = k and c = 1 and d = "data m" and n = "length (data m)"]
    by simp
  also have "\<dots> = (if data m ! (4 * k) > 128 then g else data m ! (4 * k + 1))"
    using assms by (auto simp: convertToGreenOverlay_px_def nth_put4 nth_update_any)
  finally show ?thesis .
qed

lemma overlay_dims [simp]:
  "width (convertToGreenOverlay col m) = width m" "height (convertToGreenOverlay col m) = height m"
  "length (data (convertToGreenOverlay col m)) = length (data m)"
  by (simp_all add: convertToGreenOverlay_def px_local_length[OF px_local_overlay])

lemma invert_canvas_dims [simp]:
  "width (invert_canvas col c) = width c" "height (invert_canvas col c) = height c"
  "length (data (invert_canvas col c)) = length (data c)"
  by (simp_all add: invert_canvas_def Let_def px_local_length[OF px_local_invert])

lemma invert_canvas_green:
  assumes "4 * k + 3 < length (data c)" "50 < g"
  shows "data (invert_canvas (g, b, al) c) ! (4 * k + 1) > 50 \<longleftrightarrow> \<not> data c ! (4 * k + 1) > 50"
proof -
  let ?m = "getMaskData c"
  let ?inv = "?m\<lparr>data := for_rgba 0 (length (data ?m)) invert_px (data ?m)\<rparr>"
  have l1: "4 * k + 3 < length (data ?m)" using assms by simp
  have l2: "4 * k + 3 < length (data ?inv)" using assms by (simp add: px_local_length[OF px_local_invert])
  have r: "data ?inv ! (4 * k) = 255 - data ?m ! (4 * k)"
    using invert_loop_pixel[OF l1, of 0] by simp
  have g': "data ?inv ! (4 * k + 1) = 255 - data ?m ! (4 * k)"
    using invert_loop_pixel[OF l1, of 1] by simp
  have m0: "data ?m ! (4 * k) = (if data c ! (4 * k + 1) > 50 then 255 else 0)"
    using getMaskData_pixel[OF assms(1), of 0] by simp
  have "data (invert_canvas (g, b, al) c) ! (4 * k + 1) =
          (if data ?inv ! (4 * k) > 128 then g else data ?inv ! (4 * k + 1))"
    unfolding invert_canvas_def Let_def by (rule overlay_green[OF l2])
  then show ?thesis using r g' m0 assms(2) by auto
qed

lemma getMaskData_cong:
  assumes "wf_image c" "wf_image c'" "width c' = width c" "height c' = height c"
    and "\<And>k. k < width c * height c \<Longrightarrow> (data c' ! (4 * k + 1) > 50) = (data c ! (4 * k + 1) > 50)"
  shows "getMaskData c' = getMaskData c"
proof -
  have len: "length (data c') = length (data c)" "length (data c) = 4 * (width c * height c)"
    using assms(1-4) by (simp_all add: wf_image_def)
  have "data (getMaskData c') = data (getMaskData c)"
  proof (rule nth_equalityI)
    show "length (data (getMaskData c')) = length (data (getMaskData c))" using len by simp
  next
    fix j assume "j < length (data (getMaskData c'))"
    then have j: "j < 4 * (width c * height c)" using len by simp
    define k where "k = j div 4"
    define ch where "ch = j mod 4"
    have jk: "j = 4 * k + ch" "ch < 4" "k < width c * height c"
      using j by (auto simp: k_def ch_def)
    have b: "4 * k + 3 < length (data c)" "4 * k + 3 < length (data c')" using jk len by auto
    show "data (getMaskData c') ! j = data (getMaskData c) ! j"
      unfolding jk(1) using getMaskData_pixel[OF b(1) jk(2)] getMaskData_pixel[OF b(2) jk(2)]
        assms(5)[OF jk(3)] by simp
  qed
  then show ?thesis
    using assms(3,4) by (intro imagedata.equality) simp_all
qed

text \<open>
  Claim C9. Inverting twice gives back the binary reading: after two runs of
  \<open>handleInvert\<close> the exported binary form of the mask canvas is the one before them. The
  overlay colour only has to pass the green threshold of \<open>getMaskData\<close>, as the three
  colours of the source do.
\<close>

theorem invert_twice:
  assumes "wf_image (maskCanvas s)" "50 < fst colour"
  shows "export_mask (maskCanvas (handleInvert colour (handleInvert colour s))) = export_mask (maskCanvas s)"
proof -
  obtain g b al where col: "colour = (g, b, al)" by (cases colour)
  let ?c = "maskCanvas s"
  let ?c1 = "invert_canvas colour ?c"
  let ?c2 = "invert_canvas colour ?c1"
  have wf1: "wf_image ?c1" and wf2: "wf_image ?c2" using assms(1) by (simp_all add: wf_image_def)
  have "getMaskData ?c2 = getMaskData ?c"
  proof (rule getMaskData_cong[OF assms(1) wf2])
    fix k assume "k < width ?c * height ?c"
    then have b: "4 * k + 3 < length (data ?c)" "4 * k + 3 < length (data ?c1)"
      using assms(1) by (simp_all add: wf_image_def)
    show "(data ?c2 ! (4 * k + 1) > 50) = (data ?c ! (4 * k + 1) > 50)"
      using invert_canvas_green[OF b(1), of g b al] invert_canvas_green[OF b(2), of g b al] assms(2)
      by (simp add: col)
  qed simp_all
  then show ?thesis by (simp add: handleInvert_def export_mask_def)
qed

theorem invert_twice_witness:
  "wf_image (maskCanvas (tools0 tinted)) \<and> 50 < fst green_dark \<and>
   export_mask (maskCanvas (handleInvert green_dark (handleInvert green_dark (tools0 tinted))))
     = export_mask (maskCanvas (tools0 tinted))"
proof -
  have h1: "wf_image (maskCanvas (tools0 tinted))"
    by (simp add: tools0_def MaskTools_new_def new_tools_def wf_image_def tinted_def)
  have h2: "50 < fst green_dark" by (simp add: green_dark_def)
  show ?thesis using h1 h2 invert_twice[OF h1 h2] by blast
qed

subsection \<open>The history\<close>

lemma saveState_at_tip:
  assumes "historyStep s = int (length (history s)) - 1"
  shows "at_tip (saveState s)"
  using assms by (auto simp: at_tip_def saveState_def Let_def last_tl)

lemma new_tools_at_tip: "at_tip (new_tools C mc oc)"
  unfolding new_tools_def by (rule saveState_at_tip) simp

lemma commit_at_tip: "at_tip s \<Longrightarrow> at_tip (commit s m)"
  unfolding commit_def by (rule saveState_at_tip) (simp add: at_tip_def)

lemma commits_at_tip: "at_tip s \<Longrightarrow> at_tip (foldl commit s ms)"
  by (induction ms arbitrary: s) (simp_all add: commit_at_tip)

lemma undo_redo_at_tip:
  assumes "at_tip s" "undo s = Inr (True, s1)"
  shows "redo s1 = Inr (True, s)"
proof -
  from assms(2) have pos: "historyStep s > 0"
    by (auto simp: undo_def Let_def split: if_splits)
  have stp: "historyStep s = int (length (history s)) - 1"
    using assms(1) by (simp add: at_tip_def)
  have len: "1 < length (history s)" using pos stp by linarith
  then have ne: "history s \<noteq> []" by auto
  have step: "nat (historyStep s) = length (history s) - 1" using stp by simp
  from assms(2) pos have s1: "s1 = s\<lparr>historyStep := historyStep s - 1,
      maskCanvas := history s ! nat (historyStep s - 1)\<rparr>"
    by (auto simp: undo_def Let_def split: if_splits)
  have "last (history s) = maskCanvas s" using assms(1) ne by (simp add: at_tip_def)
  then have cur: "history s ! nat (historyStep s) = maskCanvas s"
    using ne step by (simp add: last_conv_nth)
  have lt: "historyStep s - 1 < int (length (history s)) - 1" "0 \<le> historyStep s"
    using pos stp by linarith+
  show ?thesis
    unfolding s1 redo_def Let_def using lt cur by simp
qed

text \<open>
  Claim C4. After any sequence of committed mutations on freshly constructed tools (any
  capacity), if \<open>undo\<close> succeeds then the \<open>redo\<close> that follows succeeds too and puts back the
  mask that was current before the undo; indeed it restores the whole state.
\<close>

theorem undo_redo_roundtrip:
  assumes "undo (foldl commit (new_tools C mc oc) ms) = Inr (True, s1)"
  shows "\<exists>s2. redo s1 = Inr (True, s2)
            \<and> maskCanvas s2 = maskCanvas (foldl commit (new_tools C mc oc) ms)
            \<and> s2 = foldl commit (new_tools C mc oc) ms"
  using undo_redo_at_tip[OF commits_at_tip[OF new_tools_at_tip] assms] by simp

theorem undo_redo_roundtrip_witness:
  "undo (foldl commit (new_tools 20 tinted cleared) [cleared])
     = Inr (True, (foldl commit (new_tools 20 tinted cleared) [cleared])
                     \<lparr>historyStep := 0, maskCanvas := tinted\<rparr>)
   \<and> (\<exists>s2. redo ((foldl commit (new_tools 20 tinted cleared) [cleared])
                       \<lparr>historyStep := 0, maskCanvas := tinted\<rparr>) = Inr (True, s2)
            \<and> maskCanvas s2 = maskCanvas (foldl commit (new_tools 20 tinted cleared) [cleared])
            \<and> s2 = foldl commit (new_tools 20 tinted cleared) [cleared])"
proof -
  have h: "undo (foldl commit (new_tools 20 tinted cleared) [cleared])
     = Inr (True, (foldl commit (new_tools 20 tinted cleared) [cleared])
                     \<lparr>historyStep := 0, maskCanvas := tinted\<rparr>)"
    by (simp add: undo_def commit_def new_tools_def saveState_def Let_def)
  show ?thesis using h undo_redo_roundtrip[OF h] by blast
qed

lemma commits_capacity [simp]: "maxHistorySize (foldl commit s ms) = maxHistorySize s"
  by (induction ms arbitrary: s) (simp_all add: commit_def saveState_def Let_def)

lemma commits_history:
  assumes "1 \<le> C"
  shows "history (foldl commit (new_tools C mc oc) ms) = drop (length ms + 1 - C) (mc # ms)
       \<and> historyStep (foldl commit (new_tools C mc oc) ms)
           = int (length (history (foldl commit (new_tools C mc oc) ms))) - 1"
proof (induction ms rule: rev_induct)
  case Nil
  show ?case using assms by (simp add: new_tools_def saveState_def Let_def)
next
  case (snoc m ms)
  let ?s = "foldl commit (new_tools C mc oc) ms"
  let ?H = "drop (length ms + 1 - C) (mc # ms)"
  have cap: "maxHistorySize ?s = C" by (simp add: new_tools_def saveState_def Let_def)
  have H: "history ?s = ?H" and st: "historyStep ?s = int (length ?H) - 1"
    using snoc.IH by simp_all
  have lenH: "length ?H = min (length ms + 1) C" by auto
  show ?case
  proof (cases "length ms + 1 < C")
    case True
    then have "history (commit ?s m) = ?H @ [m]" "historyStep (commit ?s m) = historyStep ?s + 1"
      using H st cap lenH by (auto simp: commit_def saveState_def Let_def)
    then show ?thesis using True st by simp
  next
    case False
    then have ge: "C \<le> length ms + 1" by simp
    then have full: "length ?H = C" using lenH by simp
    have "history (commit ?s m) = tl (?H @ [m])" "historyStep (commit ?s m) = historyStep ?s"
      using H st cap full by (auto simp: commit_def saveState_def Let_def)
    moreover have "tl (?H @ [m]) = drop (length ms + 2 - C) (mc # ms @ [m])"
    proof -
      have ne: "?H \<noteq> []" using full assms by auto
      then have "tl (?H @ [m]) = tl ?H @ [m]" by simp
      also have "tl ?H = drop (Suc (length ms + 1 - C)) (mc # ms)" by (simp add: drop_Suc tl_drop)
      also have "Suc (length ms + 1 - C) = length ms + 2 - C" using ge by simp
      also have "drop (length ms + 2 - C) (mc # ms) @ [m] = drop (length ms + 2 - C) ((mc # ms) @ [m])"
      proof -
        have "length ms + 2 - C - length (mc # ms) = 0" using assms by simp
        then show ?thesis by (simp only: drop_append drop_0)
      qed
      finally show ?thesis by simp
    qed
    ultimately show ?thesis using st full ge assms by simp
  qed
qed

text \<open>
  Claim C5. After \<open>N\<close> commits on freshly constructed tools of capacity \<open>C\<close> (at least 1) the
  history holds \<open>min (N + 1) C\<close> snapshots: the last ones of the initial canvas followed by
  the committed masks, the oldest having been evicted; the cursor is the last index and
  the snapshot there is the current mask.
\<close>

theorem history_bounded:
  assumes "1 \<le> C"
  shows "length (history (foldl commit (new_tools C mc oc) ms)) = min (length ms + 1) C
       \<and> history (foldl commit (new_tools C mc oc) ms) = drop (length ms + 1 - C) (mc # ms)
       \<and> historyStep (foldl commit (new_tools C mc oc) ms)
           = int (length (history (foldl commit (new_tools C mc oc) ms))) - 1
       \<and> history (foldl commit (new_tools C mc oc) ms)
           ! nat (historyStep (foldl commit (new_tools C mc oc) ms))
           = maskCanvas (foldl commit (new_tools C mc oc) ms)"
proof -
  let ?s = "foldl commit (new_tools C mc oc) ms"
  note h = commits_history[OF assms, of mc oc ms]
  have len: "length (history ?s) = min (length ms + 1) C" using h by auto
  then have ne: "history ?s \<noteq> []" using assms by auto
  have tip: "at_tip ?s" by (rule commits_at_tip[OF new_tools_at_tip])
  have "nat (historyStep ?s) = length (history ?s) - 1"
    using tip by (simp add: at_tip_def)
  then have "history ?s ! nat (historyStep ?s) = last (history ?s)"
    using ne by (simp add: last_conv_nth)
  moreover have "last (history ?s) = maskCanvas ?s"
    using tip ne by (simp add: at_tip_def)
  ultimately have cur: "history ?s ! nat (historyStep ?s) = maskCanvas ?s"
    by simp
  show ?thesis using h len cur by blast
qed

theorem history_bounded_witness:
  "(1::nat) \<le> 2
   \<and> length (history (foldl commit (new_tools 2 tinted cleared) [cleared, tinted])) = min (length [cleared, tinted] + 1) 2
   \<and> history (foldl commit (new_tools 2 tinted cleared) [cleared, tinted])
       = drop (length [cleared, tinted] + 1 - 2) (tinted # [cleared, tinted])
   \<and> historyStep (foldl commit (new_tools 2 tinted cleared) [cleared, tinted])
           = int (length (history (foldl commit (new_tools 2 tinted cleared) [cleared, tinted]))) - 1
   \<and> history (foldl commit (new_tools 2 tinted cleared) [cleared, tinted])
           ! nat (historyStep (foldl commit (new_tools 2 tinted cleared) [cleared, tinted]))
           = maskCanvas (foldl commit (new_tools 2 tinted cleared) [cleared, tinted])"
proof -
  have h: "(1::nat) \<le> 2" by simp
  show ?thesis using h history_bounded[OF h, of tinted cleared "[cleared, tinted]"] by blast
qed

subsection \<open>Cancelling a short lasso\<close>

text \<open>
  Claim C8. Completing a lasso (or lasso-erase) polygon of fewer than three vertices only
  cancels it: the mask canvas, the history and the cursor are untouched, the polygon is
  emptied and the lasso deactivated; the double click that completes an active lasso does
  exactly this. No branch of the model fails.
\<close>

theorem lasso_too_few_points:
  assumes "length (lassoPoints s) < 3"
  shows "maskCanvas (completeLasso fill s) = maskCanvas s
       \<and> history (completeLasso fill s) = history s
       \<and> historyStep (completeLasso fill s) = historyStep s
       \<and> lassoPoints (completeLasso fill s) = []
       \<and> \<not> isLassoActive (completeLasso fill s)
       \<and> currentTool (completeLasso fill s) = currentTool s
       \<and> ((currentTool s = Lasso \<or> currentTool s = LassoErase) \<and> isLassoActive s
            \<longrightarrow> handleDoubleClick fill s = completeLasso fill s)"
  using assms by (simp add: completeLasso_def handleDoubleClick_def cancelLasso_def clearOverlay_def)

theorem lasso_too_few_points_witness:
  "length (lassoPoints lasso_two_points) < 3
   \<and> (currentTool lasso_two_points = Lasso \<or> currentTool lasso_two_points = LassoErase)
   \<and> isLassoActive lasso_two_points
   \<and> maskCanvas (completeLasso no_fill lasso_two_points) = maskCanvas lasso_two_points
   \<and> history (completeLasso no_fill lasso_two_points) = history lasso_two_points
   \<and> historyStep (completeLasso no_fill lasso_two_points) = historyStep lasso_two_points
   \<and> lassoPoints (completeLasso no_fill lasso_two_points) = []
   \<and> \<not> isLassoActive (completeLasso no_fill lasso_two_points)
   \<and> currentTool (completeLasso no_fill lasso_two_points) = currentTool lasso_two_points
   \<and> handleDoubleClick no_fill lasso_two_points = completeLasso no_fill lasso_two_points"
proof -
  have h: "length (lassoPoints lasso_two_points) < 3" by (simp add: lasso_two_points_def)
  have t: "(currentTool lasso_two_points = Lasso \<or> currentTool lasso_two_points = LassoErase)
             \<and> isLassoActive lasso_two_points"
    by (simp add: lasso_two_points_def)
  show ?thesis using h t lasso_too_few_points[OF h, of no_fill] by blast
qed

subsection \<open>The morphological passes\<close>

lemma idx_eq_iff:
  assumes "x < w" "x' < w" "c < 4" "c' < 4"
  shows "(y * w + x) * 4 + c = (y' * w + x') * 4 + c' \<longleftrightarrow> y = y' \<and> x = x' \<and> c = (c'::nat)"
proof
  assume eq: "(y * w + x) * 4 + c = (y' * w + x') * 4 + c'"
  have dv: "\<And>k c::nat. c < 4 \<Longrightarrow> (k * 4 + c) div 4 = k" by simp
  have md: "\<And>k c::nat. c < 4 \<Longrightarrow> (k * 4 + c) mod 4 = c" by simp
  have "y * w + x = ((y * w + x) * 4 + c) div 4" by (rule dv[OF assms(3), symmetric])
  also have "\<dots> = ((y' * w + x') * 4 + c') div 4" using eq by simp
  also have "\<dots> = y' * w + x'" by (rule dv[OF assms(4)])
  finally have k: "y * w + x = y' * w + x'" .
  have "c = ((y * w + x) * 4 + c) mod 4" by (rule md[OF assms(3), symmetric])
  also have "\<dots> = ((y' * w + x') * 4 + c') mod 4" using eq by simp
  also have "\<dots> = c'" by (rule md[OF assms(4)])
  finally have c: "c = c'" .
  have "(y * w + x) div w = y" "(y' * w + x') div w = y'" using assms by simp_all
  with k have y: "y = y'" by simp
  with k have "x = x'" by simp
  with y c show "y = y' \<and> x = x' \<and> c = c'" by simp
qed auto

lemma px_write_length [simp]: "length (px_write f w y x d) = length d"
  by (simp add: px_write_def split: option.splits)

lemma px_write_nth:
  assumes "x < w" "x' < w" "c < 4" "(y' * w + x') * 4 + c < length d"
  shows "px_write f w y x d ! ((y' * w + x') * 4 + c) =
           (if y' = y \<and> x' = x then px_val (f y x) c (d ! ((y' * w + x') * 4 + c))
            else d ! ((y' * w + x') * 4 + c))"
proof (cases "f y x")
  case None
  then show ?thesis by (simp add: px_write_def px_val_def)
next
  case (Some v)
  obtain r g b where v: "v = (r, g, b)" by (cases v)
  have e: "\<And>k. k < 4 \<Longrightarrow> ((y' * w + x') * 4 + c = (y * w + x) * 4 + k) = (y' = y \<and> x' = x \<and> c = k)"
    using idx_eq_iff[OF assms(2) assms(1) assms(3)] by simp
  have e0: "((y' * w + x') * 4 + c = (y * w + x) * 4) = (y' = y \<and> x' = x \<and> c = 0)"
    using e[of 0] by simp
  show ?thesis
    using assms(3,4) e[of 1] e[of 2] e0
    by (simp add: px_write_def px_val_def Some v nth_put3)
qed

lemma px_val_idem [simp]: "px_val v c (px_val v c old) = px_val v c old"
  by (auto simp: px_val_def split: option.splits)

lemma fold_row_length [simp]: "length (fold (px_write f w y) xs d) = length d"
  by (induction xs arbitrary: d) simp_all

lemma fold_row_nth:
  assumes "\<forall>x\<in>set xs. x < w" "x' < w" "c < 4" "(y' * w + x') * 4 + c < length d"
  shows "fold (px_write f w y) xs d ! ((y' * w + x') * 4 + c) =
           (if y' = y \<and> x' \<in> set xs then px_val (f y x') c (d ! ((y' * w + x') * 4 + c))
            else d ! ((y' * w + x') * 4 + c))"
  using assms
proof (induction xs arbitrary: d)
  case Nil
  then show ?case by simp
next
  case (Cons a xs)
  have a: "a < w" using Cons.prems(1) by simp
  have l: "(y' * w + x') * 4 + c < length (px_write f w y a d)" using Cons.prems(4) by simp
  have xs: "\<forall>x\<in>set xs. x < w" using Cons.prems(1) by simp
  show ?case
    using Cons.IH[OF xs Cons.prems(2,3) l] px_write_nth[OF a Cons.prems(2,3,4), of f y]
    by auto
qed

lemma fold_rows_length [simp]: "length (fold (\<lambda>y. fold (px_write f w y) xs) ys d) = length d"
  by (induction ys arbitrary: d) simp_all

lemma fold_rows_nth:
  assumes "\<forall>x\<in>set xs. x < w" "x' < w" "c < 4" "(y' * w + x') * 4 + c < length d"
  shows "fold (\<lambda>y. fold (px_write f w y) xs) ys d ! ((y' * w + x') * 4 + c) =
           (if y' \<in> set ys \<and> x' \<in> set xs then px_val (f y' x') c (d ! ((y' * w + x') * 4 + c))
            else d ! ((y' * w + x') * 4 + c))"
  using assms
proof (induction ys arbitrary: d)
  case Nil
  then show ?case by simp
next
  case (Cons a ys)
  have l: "(y' * w + x') * 4 + c < length (fold (px_write f w a) xs d)" using Cons.prems(4) by simp
  show ?case
    using Cons.IH[OF Cons.prems(1,2,3) l] fold_row_nth[OF Cons.prems(1,2,3,4), of f a]
    by auto
qed

lemma for_interior_length [simp]: "length (for_interior w h (px_write f w) d) = length d"
  by (simp add: for_interior_def)

lemma for_interior_nth:
  assumes "x < w" "c < 4" "(y * w + x) * 4 + c < length d"
  shows "for_interior w h (px_write f w) d ! ((y * w + x) * 4 + c) =
           (if interior w h x y then px_val (f y x) c (d ! ((y * w + x) * 4 + c))
            else d ! ((y * w + x) * 4 + c))"
proof -
  have xs: "\<forall>x\<in>set [1..<w - 1]. x < w" by auto
  have i: "interior w h x y \<longleftrightarrow> y \<in> set [1..<h - 1] \<and> x \<in> set [1..<w - 1]"
    by (auto simp: interior_def)
  show ?thesis
    unfolding for_interior_def i
    using fold_rows_nth[OF xs assms, of f "[1..<h - 1]"] by simp
qed

lemma nbr_nat: "nbr w y x (int dy) (int dx) = pidx w (x + dx) (y + dy)"
proof -
  have "((int y + int dy) * int w + (int x + int dx)) * 4 = int (((y + dy) * w + (x + dx)) * 4)"
    by simp
  then show ?thesis unfolding nbr_def pidx_def by (simp only: nat_int)
qed

lemma nbr_interior:
  assumes "1 \<le> x" "1 \<le> y"
  shows "nbr w y x (- 1) (- 1) = pidx w (x - 1) (y - 1)"
    "nbr w y x (- 1) 0 = pidx w x (y - 1)"
    "nbr w y x (- 1) 1 = pidx w (x + 1) (y - 1)"
    "nbr w y x 0 (- 1) = pidx w (x - 1) y"
    "nbr w y x 0 0 = pidx w x y"
    "nbr w y x 0 1 = pidx w (x + 1) y"
    "nbr w y x 1 (- 1) = pidx w (x - 1) (y + 1)"
    "nbr w y x 1 0 = pidx w x (y + 1)"
    "nbr w y x 1 1 = pidx w (x + 1) (y + 1)"
proof -
  obtain x0 y0 where xy: "x = Suc x0" "y = Suc y0"
    using assms by (cases x; cases y) auto
  have a: "int x + - 1 = int x0 + int 0" "int y + - 1 = int y0 + int 0"
     "int x + 0 = int x + int 0" "int y + 0 = int y + int 0"
     "int x + 1 = int x + int 1" "int y + 1 = int y + int 1"
    by (simp_all add: xy)
  show "nbr w y x (- 1) (- 1) = pidx w (x - 1) (y - 1)"
    using nbr_nat[of w y0 x0 0 0] a by (simp add: nbr_def xy)
  show "nbr w y x (- 1) 0 = pidx w x (y - 1)"
    using nbr_nat[of w y0 x 0 0] a by (simp add: nbr_def xy)
  show "nbr w y x (- 1) 1 = pidx w (x + 1) (y - 1)"
    using nbr_nat[of w y0 x 0 1] a by (simp add: nbr_def xy)
  show "nbr w y x 0 (- 1) = pidx w (x - 1) y"
    using nbr_nat[of w y x0 0 0] a by (simp add: nbr_def xy)
  show "nbr w y x 0 0 = pidx w x y"
    using nbr_nat[of w y x 0 0] by (simp add: nbr_def)
  show "nbr w y x 0 1 = pidx w (x + 1) y"
    using nbr_nat[of w y x 0 1] by (simp add: nbr_def)
  show "nbr w y x 1 (- 1) = pidx w (x - 1) (y + 1)"
    using nbr_nat[of w y x0 1 0] a by (simp add: nbr_def xy)
  show "nbr w y x 1 0 = pidx w x (y + 1)"
    using nbr_nat[of w y x 1 0] by (simp add: nbr_def)
  show "nbr w y x 1 1 = pidx w (x + 1) (y + 1)"
    using nbr_nat[of w y x 1 1] by (simp add: nbr_def)
qed

lemma is_sel_sel: "is_sel m = sel (width m) (height m) (data m)"
  by (intro ext) (simp add: is_sel_def sel_def pidx_def)

lemma in_grid_index: "x < w \<Longrightarrow> y < h \<Longrightarrow> y * w + x < w * (h::nat)"
proof -
  assume a: "x < w" "y < h"
  then have "y * w + x < y * w + w" by simp
  also have "\<dots> = (y + 1) * w" by simp
  also have "\<dots> \<le> h * w" using a(2) by (intro mult_le_mono1) simp
  finally show ?thesis by (simp add: mult.commute)
qed

lemma pidx_in_range: "length d = 4 * w * h \<Longrightarrow> x < w \<Longrightarrow> y < h \<Longrightarrow> c < 4 \<Longrightarrow> pidx w x y + c < length d"
  using in_grid_index[of x w y h] by (simp add: pidx_def)

lemma binary_mask_bin: "binary_mask m \<longleftrightarrow> bin (width m) (height m) (data m)"
proof
  assume b: "binary_mask m"
  show "bin (width m) (height m) (data m)"
    unfolding bin_def
  proof (intro allI impI)
    fix x y assume "x < width m \<and> y < height m"
    then have "y * width m + x < width m * height m" by (simp add: in_grid_index)
    then have "y * width m + x \<in> set [0..<width m * height m]" by simp
    with b have "data m ! (4 * (y * width m + x)) = 0 \<or> data m ! (4 * (y * width m + x)) = 255"
      unfolding binary_mask_def list_all_iff by (rule bspec)
    then show "data m ! pidx (width m) x y = 0 \<or> data m ! pidx (width m) x y = 255"
      by (simp add: mult.commute pidx_def)
  qed
next
  assume b: "bin (width m) (height m) (data m)"
  show "binary_mask m"
    unfolding binary_mask_def list_all_iff
  proof
    fix k assume "k \<in> set [0..<width m * height m]"
    then have k: "k < width m * height m" by simp
    then have w: "0 < width m" by (cases "width m") auto
    have "k mod width m < width m" using w by simp
    moreover have "k div width m < height m" using k w by (simp add: less_mult_imp_div_less mult.commute)
    moreover have "pidx (width m) (k mod width m) (k div width m) = k * 4" by (simp add: pidx_def)
    ultimately have "data m ! (k * 4) = 0 \<or> data m ! (k * 4) = 255"
      using b unfolding bin_def by metis
    then show "data m ! (4 * k) = 0 \<or> data m ! (4 * k) = 255" by (simp add: mult.commute)
  qed
qed

lemma bin_lt:
  assumes "bin w h d" "x < w" "y < h"
  shows "d ! pidx w x y < 128 \<longleftrightarrow> \<not> d ! pidx w x y > 128"
proof -
  have "d ! pidx w x y = 0 \<or> d ! pidx w x y = 255"
    using assms by (simp add: bin_def)
  then show ?thesis by (elim disjE) simp_all
qed

lemma hasWhite_iff:
  assumes "interior w h x y"
  shows "hasWhiteNeighbor d w y x \<longleftrightarrow> sel w h d x y \<or> list_ex (\<lambda>(a, b). sel w h d a b) (nbrs8 x y)"
proof -
  have xy: "1 \<le> x" "1 \<le> y" "x + 1 < w" "y + 1 < h" using assms by (auto simp: interior_def)
  have g: "x - 1 < w" "x < w" "y - 1 < h" "y < h" using xy by simp_all
  show ?thesis
    unfolding hasWhiteNeighbor_def nbrs8_def
    using xy g by (simp add: nbr_interior[OF xy(1,2)] sel_def) blast
qed

lemma hasBlack_iff:
  assumes "interior w h x y" "bin w h d"
  shows "hasBlackNeighbor d w y x \<longleftrightarrow> \<not> (sel w h d x y \<and> list_all (\<lambda>(a, b). sel w h d a b) (nbrs8 x y))"
proof -
  have xy: "1 \<le> x" "1 \<le> y" "x + 1 < w" "y + 1 < h" using assms(1) by (auto simp: interior_def)
  have lt: "\<And>a b. a < w \<Longrightarrow> b < h \<Longrightarrow> (d ! pidx w a b < 128) = (\<not> sel w h d a b)"
    using bin_lt[OF assms(2)] by (simp add: sel_def)
  have g: "x - 1 < w" "x < w" "y - 1 < h" "y < h" using xy by simp_all
  show ?thesis
    unfolding hasBlackNeighbor_def nbrs8_def
    using xy by (simp add: nbr_interior[OF xy(1,2)] lt g) blast
qed

lemma dilate_px_eq:
  "dilate_px src w = px_write (\<lambda>y x. if src ! pidx w x y > 128 then None
       else if hasWhiteNeighbor src w y x then Some (255, 255, 255) else None) w"
  by (intro ext) (simp add: dilate_px_def px_write_def Let_def pidx_def)

lemma erode_px_eq:
  "erode_px src w = px_write (\<lambda>y x. if src ! pidx w x y < 128 then None
       else if hasBlackNeighbor src w y x then Some (0, 0, 0) else None) w"
  by (intro ext) (simp add: erode_px_def px_write_def Let_def pidx_def)

lemma erode_back_px_eq:
  "erode_back_px src w = px_write (\<lambda>y x. if src ! pidx w x y < 128 then None
       else if hasBlackNeighbor src w y x then Some (0, 0, 0)
       else Some (src ! pidx w x y, src ! (pidx w x y + 1), src ! (pidx w x y + 2))) w"
  by (intro ext) (simp add: erode_back_px_def px_write_def Let_def pidx_def)

lemma dilate_back_px_eq:
  "dilate_back_px src w = px_write (\<lambda>y x. if src ! pidx w x y > 128 then None
       else if hasWhiteNeighbor src w y x then Some (255, 255, 255)
       else Some (src ! pidx w x y, src ! (pidx w x y + 1), src ! (pidx w x y + 2))) w"
  by (intro ext) (simp add: dilate_back_px_def px_write_def Let_def pidx_def)

text \<open>The red byte of a pixel after a pass.\<close>

lemma for_interior_red:
  assumes "length d = 4 * w * h" "x < w" "y < h"
  shows "for_interior w h (px_write f w) d ! pidx w x y =
           (if interior w h x y then px_val (f y x) 0 (d ! pidx w x y) else d ! pidx w x y)"
proof -
  have "(y * w + x) * 4 + 0 < length d"
    using pidx_in_range[OF assms, of 0] by (simp add: pidx_def)
  from for_interior_nth[OF assms(2) _ this, where h = h and f = f] show ?thesis
    by (simp add: pidx_def)
qed

lemma for_interior_border:
  assumes "length d = 4 * w * h" "x < w" "y < h" "c < 4" "\<not> interior w h x y"
  shows "for_interior w h (px_write f w) d ! (pidx w x y + c) = d ! (pidx w x y + c)"
proof -
  have "(y * w + x) * 4 + c < length d"
    using pidx_in_range[OF assms(1-4)] by (simp add: pidx_def)
  from for_interior_nth[OF assms(2,4) this, where h = h and f = f] assms(5) show ?thesis
    by (simp add: pidx_def)
qed

lemma spec_outside:
  "\<not> (x < w \<and> y < h) \<Longrightarrow> spec_dilate w h (sel w h d) x y = False"
  "\<not> (x < w \<and> y < h) \<Longrightarrow> spec_erode w h (sel w h d) x y = False"
  by (auto simp: spec_dilate_def spec_erode_def sel_def interior_def)

lemma dilate_first:
  assumes len: "length d = 4 * w * h"
  defines "dil \<equiv> for_interior w h (dilate_px d w) d"
  shows "sel w h dil = spec_dilate w h (sel w h d)"
    and "bin w h d \<Longrightarrow> bin w h dil"
    and "\<And>x y. x < w \<Longrightarrow> y < h \<Longrightarrow> \<not> interior w h x y \<or> dil ! pidx w x y < 128
           \<Longrightarrow> (d ! pidx w x y > 128) = (dil ! pidx w x y > 128)"
proof -
  have red: "\<And>x y. x < w \<Longrightarrow> y < h \<Longrightarrow> dil ! pidx w x y =
      (if interior w h x y \<and> \<not> d ! pidx w x y > 128 \<and> hasWhiteNeighbor d w y x then 255
       else d ! pidx w x y)"
    unfolding dil_def dilate_px_eq by (simp add: for_interior_red[OF len] px_val_def)
  show "sel w h dil = spec_dilate w h (sel w h d)"
  proof (intro ext)
    fix x y
    show "sel w h dil x y = spec_dilate w h (sel w h d) x y"
    proof (cases "x < w \<and> y < h")
      case False
      then show ?thesis using spec_outside[of x w y h d] by (auto simp: sel_def)
    next
      case True
      then show ?thesis
        using red[of x y] hasWhite_iff[of w h x y d]
        by (auto simp: sel_def spec_dilate_def)
    qed
  qed
  show "bin w h d \<Longrightarrow> bin w h dil"
    unfolding bin_def using red by auto
  show "\<And>x y. x < w \<Longrightarrow> y < h \<Longrightarrow> \<not> interior w h x y \<or> dil ! pidx w x y < 128
           \<Longrightarrow> (d ! pidx w x y > 128) = (dil ! pidx w x y > 128)"
    using red by (auto split: if_splits)
qed

lemma erode_first:
  assumes len: "length d = 4 * w * h" and b: "bin w h d"
  defines "er \<equiv> for_interior w h (erode_px d w) d"
  shows "sel w h er = spec_erode w h (sel w h d)"
    and "bin w h er"
    and "\<And>x y. x < w \<Longrightarrow> y < h \<Longrightarrow> \<not> interior w h x y \<or> er ! pidx w x y > 128
           \<Longrightarrow> (d ! pidx w x y > 128) = (er ! pidx w x y > 128)"
proof -
  have red: "\<And>x y. x < w \<Longrightarrow> y < h \<Longrightarrow> er ! pidx w x y =
      (if interior w h x y \<and> \<not> d ! pidx w x y < 128 \<and> hasBlackNeighbor d w y x then 0
       else d ! pidx w x y)"
    unfolding er_def erode_px_eq by (simp add: for_interior_red[OF len] px_val_def)
  show "sel w h er = spec_erode w h (sel w h d)"
  proof (intro ext)
    fix x y
    show "sel w h er x y = spec_erode w h (sel w h d) x y"
    proof (cases "x < w \<and> y < h")
      case False
      then show ?thesis using spec_outside[of x w y h d] by (auto simp: sel_def)
    next
      case True
      then show ?thesis
        using red[of x y] hasBlack_iff[of w h x y d, OF _ b] bin_lt[OF b, of x y]
        by (auto simp: sel_def spec_erode_def)
    qed
  qed
  show "bin w h er"
    using b unfolding bin_def using red by auto
  show "\<And>x y. x < w \<Longrightarrow> y < h \<Longrightarrow> \<not> interior w h x y \<or> er ! pidx w x y > 128
           \<Longrightarrow> (d ! pidx w x y > 128) = (er ! pidx w x y > 128)"
    using red by (auto split: if_splits)
qed

lemma erode_back:
  assumes len: "length d = 4 * w * h" and bs: "bin w h src" and bd: "bin w h d"
    and agree: "\<And>x y. x < w \<Longrightarrow> y < h \<Longrightarrow> \<not> interior w h x y \<or> src ! pidx w x y < 128
           \<Longrightarrow> (d ! pidx w x y > 128) = (src ! pidx w x y > 128)"
  defines "res \<equiv> for_interior w h (erode_back_px src w) d"
  shows "sel w h res = spec_erode w h (sel w h src)" and "bin w h res"
proof -
  have red: "\<And>x y. x < w \<Longrightarrow> y < h \<Longrightarrow> res ! pidx w x y =
      (if interior w h x y \<and> \<not> src ! pidx w x y < 128
       then (if hasBlackNeighbor src w y x then 0 else src ! pidx w x y)
       else d ! pidx w x y)"
    unfolding res_def erode_back_px_eq by (simp add: for_interior_red[OF len] px_val_def)
  show "sel w h res = spec_erode w h (sel w h src)"
  proof (intro ext)
    fix x y
    show "sel w h res x y = spec_erode w h (sel w h src) x y"
    proof (cases "x < w \<and> y < h")
      case False
      then show ?thesis using spec_outside[of x w y h src] by (auto simp: sel_def)
    next
      case True
      then show ?thesis
        using red[of x y] hasBlack_iff[of w h x y src, OF _ bs] bin_lt[OF bs, of x y] agree[of x y]
        by (auto simp: sel_def spec_erode_def)
    qed
  qed
  show "bin w h res"
    using bs bd unfolding bin_def using red by auto
qed

lemma dilate_back:
  assumes len: "length d = 4 * w * h" and bs: "bin w h src" and bd: "bin w h d"
    and agree: "\<And>x y. x < w \<Longrightarrow> y < h \<Longrightarrow> \<not> interior w h x y \<or> src ! pidx w x y > 128
           \<Longrightarrow> (d ! pidx w x y > 128) = (src ! pidx w x y > 128)"
  defines "res \<equiv> for_interior w h (dilate_back_px src w) d"
  shows "sel w h res = spec_dilate w h (sel w h src)" and "bin w h res"
proof -
  have red: "\<And>x y. x < w \<Longrightarrow> y < h \<Longrightarrow> res ! pidx w x y =
      (if interior w h x y \<and> \<not> src ! pidx w x y > 128
       then (if hasWhiteNeighbor src w y x then 255 else src ! pidx w x y)
       else d ! pidx w x y)"
    unfolding res_def dilate_back_px_eq by (simp add: for_interior_red[OF len] px_val_def)
  show "sel w h res = spec_dilate w h (sel w h src)"
  proof (intro ext)
    fix x y
    show "sel w h res x y = spec_dilate w h (sel w h src) x y"
    proof (cases "x < w \<and> y < h")
      case False
      then show ?thesis using spec_outside[of x w y h src] by (auto simp: sel_def)
    next
      case True
      then show ?thesis
        using red[of x y] hasWhite_iff[of w h x y src] agree[of x y]
        by (auto simp: sel_def spec_dilate_def)
    qed
  qed
  show "bin w h res"
    using bs bd unfolding bin_def using red by auto
qed

lemma closing_round_props:
  assumes len: "length d = 4 * w * h" and b: "bin w h d"
  shows "sel w h (closing_round w h d) = spec_closing w h (sel w h d)"
    and "bin w h (closing_round w h d)"
    and "length (closing_round w h d) = 4 * w * h"
    and "\<And>x y c. x < w \<Longrightarrow> y < h \<Longrightarrow> c < 4 \<Longrightarrow> \<not> interior w h x y
           \<Longrightarrow> closing_round w h d ! (pidx w x y + c) = d ! (pidx w x y + c)"
proof -
  let ?dil = "for_interior w h (dilate_px d w) d"
  note df = dilate_first[OF len]
  show "sel w h (closing_round w h d) = spec_closing w h (sel w h d)"
    unfolding closing_round_def Let_def spec_closing_def
    using erode_back(1)[OF len df(2)[OF b] b df(3)] df(1) by simp
  show "bin w h (closing_round w h d)"
    unfolding closing_round_def Let_def
    by (rule erode_back(2)[OF len df(2)[OF b] b df(3)])
  show "length (closing_round w h d) = 4 * w * h"
    unfolding closing_round_def Let_def erode_back_px_eq using len by simp
  show "\<And>x y c. x < w \<Longrightarrow> y < h \<Longrightarrow> c < 4 \<Longrightarrow> \<not> interior w h x y
           \<Longrightarrow> closing_round w h d ! (pidx w x y + c) = d ! (pidx w x y + c)"
    unfolding closing_round_def Let_def erode_back_px_eq
    by (rule for_interior_border[OF len])
qed

lemma opening_round_props:
  assumes len: "length d = 4 * w * h" and b: "bin w h d"
  shows "sel w h (opening_round w h d) = spec_opening w h (sel w h d)"
    and "bin w h (opening_round w h d)"
    and "length (opening_round w h d) = 4 * w * h"
    and "\<And>x y c. x < w \<Longrightarrow> y < h \<Longrightarrow> c < 4 \<Longrightarrow> \<not> interior w h x y
           \<Longrightarrow> opening_round w h d ! (pidx w x y + c) = d ! (pidx w x y + c)"
proof -
  note ef = erode_first[OF len b]
  show "sel w h (opening_round w h d) = spec_opening w h (sel w h d)"
    unfolding opening_round_def Let_def spec_opening_def
    using dilate_back(1)[OF len ef(2) b ef(3)] ef(1) by simp
  show "bin w h (opening_round w h d)"
    unfolding opening_round_def Let_def
    by (rule dilate_back(2)[OF len ef(2) b ef(3)])
  show "length (opening_round w h d) = 4 * w * h"
    unfolding opening_round_def Let_def dilate_back_px_eq using len by simp
  show "\<And>x y c. x < w \<Longrightarrow> y < h \<Longrightarrow> c < 4 \<Longrightarrow> \<not> interior w h x y
           \<Longrightarrow> opening_round w h d ! (pidx w x y + c) = d ! (pidx w x y + c)"
    unfolding opening_round_def Let_def dilate_back_px_eq
    by (rule for_interior_border[OF len])
qed

lemma rounds_props:
  assumes r: "round_as w h f F" and len: "length d = 4 * w * h" and b: "bin w h d"
  shows "sel w h (rounds n f d) = (F ^^ n) (sel w h d)
       \<and> (\<forall>x y c. x < w \<and> y < h \<and> c < 4 \<and> \<not> interior w h x y
            \<longrightarrow> rounds n f d ! (pidx w x y + c) = d ! (pidx w x y + c))"
  using len b
proof (induction n arbitrary: d)
  case 0
  show ?case by simp
next
  case (Suc n)
  from r Suc.prems have fd: "sel w h (f d) = F (sel w h d)" "bin w h (f d)" "length (f d) = 4 * w * h"
    and bd: "\<forall>x y c. x < w \<and> y < h \<and> c < 4 \<and> \<not> interior w h x y
            \<longrightarrow> f d ! (pidx w x y + c) = d ! (pidx w x y + c)"
    unfolding round_as_def by blast+
  from Suc.IH[OF fd(3) fd(2)] fd(1) bd show ?case
    by (simp add: funpow_swap1)
qed

lemma closing_round_as: "round_as w h (closing_round w h) (spec_closing w h)"
  unfolding round_as_def using closing_round_props[of _ w h] by blast

lemma opening_round_as: "round_as w h (opening_round w h) (spec_opening w h)"
  unfolding round_as_def using opening_round_props[of _ w h] by blast

text \<open>
  Claim C2, as amended. On a binary mask, each iteration of \<open>refineMaskEdges\<close> is a
  closing: the dilation of the specification followed by its erosion. Each iteration of
  \<open>refineMaskEdgesEnhanced\<close> runs the two passes in the other order, erosion first, which
  is an opening. Both leave the four bytes of every pixel of the outermost ring as they
  were.
\<close>

theorem refine_passes:
  assumes "wf_image m" "binary_mask m"
  shows "is_sel (refineMaskEdges m n) = (spec_closing (width m) (height m) ^^ n) (is_sel m)
       \<and> same_border m (refineMaskEdges m n)
       \<and> is_sel (refineMaskEdgesEnhanced m n) = (spec_opening (width m) (height m) ^^ n) (is_sel m)
       \<and> same_border m (refineMaskEdgesEnhanced m n)"
proof -
  have len: "length (data m) = 4 * width m * height m" using assms(1) by (simp add: wf_image_def)
  have b: "bin (width m) (height m) (data m)" using assms(2) by (simp add: binary_mask_bin)
  note c = rounds_props[OF closing_round_as len b, of n]
  note e = rounds_props[OF opening_round_as len b, of n]
  show ?thesis
    using c e by (simp add: is_sel_sel refineMaskEdges_def refineMaskEdgesEnhanced_def same_border_def
        pidx_def)
qed

theorem refine_passes_witness:
  "wf_image dot5 \<and> binary_mask dot5
   \<and> is_sel (refineMaskEdges dot5 2) = (spec_closing (width dot5) (height dot5) ^^ 2) (is_sel dot5)
   \<and> same_border dot5 (refineMaskEdges dot5 2)
   \<and> is_sel (refineMaskEdgesEnhanced dot5 2) = (spec_opening (width dot5) (height dot5) ^^ 2) (is_sel dot5)
   \<and> same_border dot5 (refineMaskEdgesEnhanced dot5 2)"
proof -
  have h1: "wf_image dot5" by code_simp
  have h2: "binary_mask dot5" by code_simp
  show ?thesis using h1 h2 refine_passes[OF h1 h2, of 2] by blast
qed

lemma spec_closing_keeps:
  assumes "g x y" "2 \<le> x" "x + 2 < w" "2 \<le> y" "y + 2 < h"
  shows "spec_closing w h g x y"
proof -
  obtain x0 y0 where xy: "x = x0 + 2" "y = y0 + 2"
    using assms(2,4) by (metis add.commute le_Suc_ex)
  show ?thesis
    using assms(1,3,5) unfolding xy
    by (simp add: spec_closing_def spec_erode_def spec_dilate_def interior_def nbrs8_def)
qed

lemma spec_opening_removes:
  assumes "list_all (\<lambda>(a, b). \<not> g a b) (nbrs8 x y)" "interior w h x y"
  shows "\<not> spec_opening w h g x y"
  using assms
  by (simp add: spec_opening_def spec_erode_def spec_dilate_def nbrs8_def)

text \<open>
  Claim C3, as amended. Take a binary mask and a selected pixel at least two pixels away
  from every edge, with its eight neighbours unselected. One iteration of
  \<open>refineMaskEdgesEnhanced\<close> (erosion, then dilation) unselects it. One iteration of
  \<open>refineMaskEdges\<close> (dilation, then erosion: the closing) leaves it selected.
\<close>

theorem isolated_pixel:
  assumes "wf_image m" "binary_mask m" "is_sel m x y"
    and "2 \<le> x" "x + 2 < width m" "2 \<le> y" "y + 2 < height m"
    and "list_all (\<lambda>(a, b). \<not> is_sel m a b) (nbrs8 x y)"
  shows "\<not> is_sel (refineMaskEdgesEnhanced m 1) x y \<and> is_sel (refineMaskEdges m 1) x y"
proof -
  have len: "length (data m) = 4 * width m * height m" using assms(1) by (simp add: wf_image_def)
  have b: "bin (width m) (height m) (data m)" using assms(2) by (simp add: binary_mask_bin)
  have c: "is_sel (refineMaskEdges m 1) = spec_closing (width m) (height m) (is_sel m)"
    using rounds_props[OF closing_round_as len b, of 1]
    by (simp add: is_sel_sel refineMaskEdges_def)
  have e: "is_sel (refineMaskEdgesEnhanced m 1) = spec_opening (width m) (height m) (is_sel m)"
    using rounds_props[OF opening_round_as len b, of 1]
    by (simp add: is_sel_sel refineMaskEdgesEnhanced_def)
  have i: "interior (width m) (height m) x y" using assms(4-7) by (simp add: interior_def)
  show ?thesis
    unfolding c e
    using spec_closing_keeps[where g = "is_sel m" and x = x and y = y, OF assms(3-7)]
      spec_opening_removes[where g = "is_sel m", OF assms(8) i] by simp
qed

theorem isolated_pixel_witness:
  "wf_image dot5 \<and> binary_mask dot5 \<and> is_sel dot5 2 2
   \<and> (2::nat) \<le> 2 \<and> 2 + 2 < width dot5 \<and> (2::nat) \<le> 2 \<and> 2 + 2 < height dot5
   \<and> list_all (\<lambda>(a, b). \<not> is_sel dot5 a b) (nbrs8 2 2)
   \<and> \<not> is_sel (refineMaskEdgesEnhanced dot5 1) 2 2 \<and> is_sel (refineMaskEdges dot5 1) 2 2"
proof -
  have h1: "wf_image dot5" by code_simp
  have h2: "binary_mask dot5" by code_simp
  have h3: "is_sel dot5 2 2" by code_simp
  have h4: "(2::nat) \<le> 2" by simp
  have h5: "2 + 2 < width dot5" by code_simp
  have h6: "2 + 2 < height dot5" by code_simp
  have h7: "list_all (\<lambda>(a, b). \<not> is_sel dot5 a b) (nbrs8 2 2)" by code_simp
  show ?thesis
    using h1 h2 h3 h4 h5 h6 h7 isolated_pixel[OF h1 h2 h3 h4 h5 h4 h6 h7] by blast
qed

theorem isolated_pixel_counterexample:
  "filter (\<lambda>(a, b). is_sel dot5 a b) (List.product [0..<5] [0..<5]) = [(2, 2)]
   \<and> list_all (\<lambda>(a, b). \<not> is_sel dot5 a b) (nbrs8 2 2)
   \<and> is_sel (refineMaskEdges dot5 1) 2 2"
  by code_simp

theorem refine_passes_counterexample:
  "is_sel (refineMaskEdgesEnhanced dot5 1) 2 2
     \<noteq> (spec_closing (width dot5) (height dot5) ^^ 1) (is_sel dot5) 2 2"
  by code_simp

subsection \<open>The flood fill stops\<close>

lemma in_image_nat:
  assumes "\<not> (x < 0 \<or> x \<ge> int w \<or> y < 0 \<or> y \<ge> int h)"
  obtains a b where "x = int a" "y = int b" "a < w" "b < h" "nat (y * int w + x) = b * w + a"
proof -
  have "x = int (nat x)" "y = int (nat y)" "nat x < w" "nat y < h" using assms by auto
  moreover have "nat (y * int w + x) = nat y * w + nat x"
    using assms by (simp add: nat_add_distrib nat_mult_distrib)
  ultimately show ?thesis using that by blast
qed

lemma card_unvisited_insert:
  assumes "i < n" "i \<notin> V"
  shows "card ({..<n} - insert i V) < card ({..<n::nat} - V)"
proof -
  have "{..<n} - insert i V \<subset> {..<n} - V" using assms by auto
  then show ?thesis by (intro psubset_card_mono) auto
qed

lemma ff_step_decreases:
  assumes "queue s \<noteq> []"
  shows "ff_potential w h (ff_step dat w h t s) < ff_potential w h s"
proof -
  obtain x y rest where q: "queue s = (x, y) # rest"
    using assms by (cases "queue s") auto
  show ?thesis
  proof (cases "x < 0 \<or> x \<ge> int w \<or> y < 0 \<or> y \<ge> int h")
    case True
    then show ?thesis by (simp add: ff_step_def q ff_potential_def)
  next
    case False
    from in_image_nat[OF False] obtain a b where ab: "x = int a" "y = int b" "a < w" "b < h"
      "nat (y * int w + x) = b * w + a" by blast
    have lt: "b * w + a < w * h" using in_grid_index[OF ab(3,4)] .
    show ?thesis
    proof (cases "b * w + a \<in> visited s")
      case True
      then show ?thesis using False ab(5) by (simp add: ff_step_def q ff_potential_def Let_def)
    next
      case nv: False
      have c: "card ({..<w * h} - insert (b * w + a) (visited s)) < card ({..<w * h} - visited s)"
        by (rule card_unvisited_insert[OF lt nv])
      show ?thesis
        using False ab(5) nv c by (simp add: ff_step_def q ff_potential_def Let_def)
    qed
  qed
qed

lemma ff_drains:
  "ff_potential w h s \<le> n \<Longrightarrow> \<exists>k\<le>n. queue ((ff_step dat w h t ^^ k) s) = []"
proof (induction n arbitrary: s)
  case 0
  then have "queue s = []" by (simp add: ff_potential_def)
  then show ?case by (intro exI[of _ 0]) simp
next
  case (Suc n)
  show ?case
  proof (cases "queue s = []")
    case True
    then show ?thesis by (intro exI[of _ 0]) simp
  next
    case False
    from ff_step_decreases[OF False, of w h dat t] Suc.prems
    have "ff_potential w h (ff_step dat w h t s) \<le> n" by simp
    from Suc.IH[OF this] obtain k where k: "k \<le> n"
      "queue ((ff_step dat w h t ^^ k) (ff_step dat w h t s)) = []" by blast
    show ?thesis
      using k by (intro exI[of _ "Suc k"]) (simp add: funpow_swap1)
  qed
qed

subsection \<open>The flood fill computes the region of the seed\<close>

lemma in_image_iff: "in_image w h (x, y) \<longleftrightarrow> \<not> (x < 0 \<or> x \<ge> int w \<or> y < 0 \<or> y \<ge> int h)"
  by (auto simp: in_image_def)

lemma in_image_cases:
  assumes "in_image w h p"
  obtains a b where "p = (int a, int b)" "a < w" "b < h" "lin w p = b * w + a"
proof -
  obtain x y where p: "p = (x, y)" by (cases p)
  from assms have "\<not> (x < 0 \<or> x \<ge> int w \<or> y < 0 \<or> y \<ge> int h)" by (simp add: p in_image_iff)
  from in_image_nat[OF this] obtain a b where "x = int a" "y = int b" "a < w" "b < h"
    "nat (y * int w + x) = b * w + a" by blast
  then show ?thesis using that[of a b] by (simp add: p lin_def)
qed

lemma lin_less: "in_image w h p \<Longrightarrow> lin w p < w * h"
  by (erule in_image_cases) (simp add: in_grid_index)

lemma lin_inj:
  assumes "in_image w h p" "in_image w h q" "lin w p = lin w q"
  shows "p = q"
proof -
  from assms(1) obtain a b where p: "p = (int a, int b)" "a < w" "b < h" "lin w p = b * w + a"
    by (rule in_image_cases)
  from assms(2) obtain a' b' where q: "q = (int a', int b')" "a' < w" "b' < h" "lin w q = b' * w + a'"
    by (rule in_image_cases)
  have "(b * w + a) * 4 + 0 = (b' * w + a') * 4 + 0" using assms(3) p(4) q(4) by simp
  then have "b = b' \<and> a = a' \<and> (0::nat) = 0"
    by (subst (asm) idx_eq_iff[OF p(2) q(2)]) simp_all
  then show ?thesis by (simp add: p q)
qed

lemma class_at_lin:
  "in_image (width seg) h p \<Longrightarrow> class_at seg p = data seg ! (lin (width seg) p * 4)"
proof -
  assume "in_image (width seg) h p"
  then have "0 \<le> snd p * int (width seg) + fst p" by (auto simp: in_image_def)
  then have "nat ((snd p * int (width seg) + fst p) * 4) = nat (snd p * int (width seg) + fst p) * 4"
    by (simp add: nat_mult_distrib)
  then show ?thesis by (simp add: class_at_def lin_def)
qed

lemma ff_step_cases:
  assumes "queue s = p # rest"
  obtains (oob) "\<not> in_image w h p" "ff_step dat w h t s = s\<lparr>queue := rest\<rparr>"
  | (seen) "in_image w h p" "lin w p \<in> visited s" "ff_step dat w h t s = s\<lparr>queue := rest\<rparr>"
  | (hit) "in_image w h p" "lin w p \<notin> visited s" "Some (dat ! (lin w p * 4)) = t"
      "ff_step dat w h t s =
         \<lparr>queue = rest @ [(fst p + 1, snd p), (fst p - 1, snd p), (fst p, snd p + 1), (fst p, snd p - 1)],
          visited = insert (lin w p) (visited s),
          maskArray = put4 (lin w p * 4) 255 255 255 255 (maskArray s)\<rparr>"
  | (miss) "in_image w h p" "lin w p \<notin> visited s" "Some (dat ! (lin w p * 4)) \<noteq> t"
      "ff_step dat w h t s =
         \<lparr>queue = rest, visited = insert (lin w p) (visited s), maskArray = maskArray s\<rparr>"
proof -
  obtain x y where p: "p = (x, y)" by (cases p)
  show ?thesis
  proof (cases "in_image w h p")
    case False
    then have "ff_step dat w h t s = s\<lparr>queue := rest\<rparr>"
      using assms by (simp add: ff_step_def p in_image_iff)
    with False show ?thesis by (rule oob)
  next
    case True
    then have nb: "\<not> (x < 0 \<or> x \<ge> int w \<or> y < 0 \<or> y \<ge> int h)" by (simp add: p in_image_iff)
    show ?thesis
    proof (cases "lin w p \<in> visited s")
      case v: True
      then have "ff_step dat w h t s = s\<lparr>queue := rest\<rparr>"
        using assms nb by (simp add: ff_step_def p lin_def Let_def)
      with True v show ?thesis by (rule seen)
    next
      case v: False
      show ?thesis
      proof (cases "Some (dat ! (lin w p * 4)) = t")
        case c: True
        have "ff_step dat w h t s =
         \<lparr>queue = rest @ [(fst p + 1, snd p), (fst p - 1, snd p), (fst p, snd p + 1), (fst p, snd p - 1)],
          visited = insert (lin w p) (visited s),
          maskArray = put4 (lin w p * 4) 255 255 255 255 (maskArray s)\<rparr>"
          using assms nb v c by (simp add: ff_step_def p lin_def Let_def)
        with True v c show ?thesis by (rule hit)
      next
        case c: False
        have "ff_step dat w h t s =
         \<lparr>queue = rest, visited = insert (lin w p) (visited s), maskArray = maskArray s\<rparr>"
          using assms nb v c by (simp add: ff_step_def p lin_def Let_def)
        with True v c show ?thesis by (rule miss)
      qed
    qed
  qed
qed

lemma put4_white:
  "k < length d \<Longrightarrow> put4 i 255 255 255 255 d ! k = (if i \<le> k \<and> k < i + 4 then 255 else d ! k)"
  by (auto simp: nth_put4)

lemma ff_marked_same: "visited s' = visited s \<Longrightarrow> ff_marked seg c s' = ff_marked seg c s"
  by (simp add: ff_marked_def)

lemma ff_marked_hit:
  assumes "in_image (width seg) (height seg) p" "class_at seg p = c"
    "visited s' = insert (lin (width seg) p) (visited s)"
  shows "ff_marked seg c s' = insert p (ff_marked seg c s)"
  using assms lin_inj[OF _ assms(1)] by (auto simp: ff_marked_def)

lemma ff_marked_miss:
  assumes "in_image (width seg) (height seg) p" "class_at seg p \<noteq> c"
    "visited s' = insert (lin (width seg) p) (visited s)"
  shows "ff_marked seg c s' = ff_marked seg c s"
  using assms lin_inj[OF _ assms(1)] by (auto simp: ff_marked_def)

lemma ff_inv_pop:
  assumes inv: "ff_inv seg c seed s" and q: "queue s = p # rest"
    and p: "\<not> in_image (width seg) (height seg) p \<or> lin (width seg) p \<in> visited s"
  shows "ff_inv seg c seed (s\<lparr>queue := rest\<rparr>)"
proof -
  let ?s' = "s\<lparr>queue := rest\<rparr>"
  have m: "ff_marked seg c ?s' = ff_marked seg c s" by (rule ff_marked_same) simp
  have i5: "in_image (width seg) (height seg) seed
          \<longrightarrow> seed \<in> set rest \<or> lin (width seg) seed \<in> visited s"
    using inv p q unfolding ff_inv_def by auto
  have i6: "\<forall>p'\<in>ff_marked seg c s. \<forall>q'. adjacent4 p' q' \<and> in_image (width seg) (height seg) q'
          \<longrightarrow> q' \<in> set rest \<or> lin (width seg) q' \<in> visited s"
  proof (intro ballI allI impI)
    fix p' q' assume a: "p' \<in> ff_marked seg c s" "adjacent4 p' q' \<and> in_image (width seg) (height seg) q'"
    with inv have "q' \<in> set (queue s) \<or> lin (width seg) q' \<in> visited s"
      unfolding ff_inv_def by blast
    then show "q' \<in> set rest \<or> lin (width seg) q' \<in> visited s"
      using p q a(2) by auto
  qed
  have i4: "\<forall>q'\<in>set rest. in_image (width seg) (height seg) q' \<and> class_at seg q' = c
          \<longrightarrow> q' \<in> region seg c seed"
    using inv q unfolding ff_inv_def by simp
  show ?thesis
    unfolding ff_inv_def m using inv i4 i5 i6 by (simp add: ff_inv_def)
qed

lemma ff_inv_miss:
  assumes inv: "ff_inv seg c seed s" and q: "queue s = p # rest"
    and p: "in_image (width seg) (height seg) p" "class_at seg p \<noteq> c"
  shows "ff_inv seg c seed
           \<lparr>queue = rest, visited = insert (lin (width seg) p) (visited s), maskArray = maskArray s\<rparr>"
proof -
  let ?s' = "\<lparr>queue = rest, visited = insert (lin (width seg) p) (visited s), maskArray = maskArray s\<rparr>"
  have m: "ff_marked seg c ?s' = ff_marked seg c s" by (rule ff_marked_miss[OF p]) simp
  have i5: "in_image (width seg) (height seg) seed
          \<longrightarrow> seed \<in> set rest \<or> lin (width seg) seed \<in> insert (lin (width seg) p) (visited s)"
    using inv q unfolding ff_inv_def by auto
  have i6: "\<forall>p'\<in>ff_marked seg c s. \<forall>q'. adjacent4 p' q' \<and> in_image (width seg) (height seg) q'
          \<longrightarrow> q' \<in> set rest \<or> lin (width seg) q' \<in> insert (lin (width seg) p) (visited s)"
  proof (intro ballI allI impI)
    fix p' q' assume a: "p' \<in> ff_marked seg c s" "adjacent4 p' q' \<and> in_image (width seg) (height seg) q'"
    with inv have "q' \<in> set (queue s) \<or> lin (width seg) q' \<in> visited s"
      unfolding ff_inv_def by blast
    then show "q' \<in> set rest \<or> lin (width seg) q' \<in> insert (lin (width seg) p) (visited s)"
      using q by auto
  qed
  have i4: "\<forall>q'\<in>set rest. in_image (width seg) (height seg) q' \<and> class_at seg q' = c
          \<longrightarrow> q' \<in> region seg c seed"
    using inv q unfolding ff_inv_def by simp
  show ?thesis
    unfolding ff_inv_def m using inv i4 i5 i6 by (simp add: ff_inv_def)
qed

lemma ff_inv_hit:
  assumes inv: "ff_inv seg c seed s" and q: "queue s = p # rest"
    and p: "in_image (width seg) (height seg) p" "class_at seg p = c"
  shows "ff_inv seg c seed
           \<lparr>queue = rest @ [(fst p + 1, snd p), (fst p - 1, snd p), (fst p, snd p + 1), (fst p, snd p - 1)],
            visited = insert (lin (width seg) p) (visited s),
            maskArray = put4 (lin (width seg) p * 4) 255 255 255 255 (maskArray s)\<rparr>"
proof -
  let ?w = "width seg" and ?h = "height seg"
  let ?nb = "[(fst p + 1, snd p), (fst p - 1, snd p), (fst p, snd p + 1), (fst p, snd p - 1)]"
  let ?s' = "\<lparr>queue = rest @ ?nb, visited = insert (lin ?w p) (visited s),
              maskArray = put4 (lin ?w p * 4) 255 255 255 255 (maskArray s)\<rparr>"
  have m: "ff_marked seg c ?s' = insert p (ff_marked seg c s)" by (rule ff_marked_hit[OF p]) simp
  have len: "length (maskArray s) = 4 * ?w * ?h" using inv by (simp add: ff_inv_def)
  have preg: "p \<in> region seg c seed" using inv q p unfolding ff_inv_def by simp
  have i1: "length (put4 (lin ?w p * 4) 255 255 255 255 (maskArray s)) = 4 * ?w * ?h"
    using len by simp
  have i2: "\<forall>p'. in_image ?w ?h p' \<longrightarrow>
      put4 (lin ?w p * 4) 255 255 255 255 (maskArray s) ! (lin ?w p' * 4)
        = (if p' \<in> insert p (ff_marked seg c s) then 255 else 0)"
  proof (intro allI impI)
    fix p' assume ip: "in_image ?w ?h p'"
    have k: "lin ?w p' * 4 < length (maskArray s)" using lin_less[OF ip] len by simp
    have e: "(lin ?w p * 4 \<le> lin ?w p' * 4 \<and> lin ?w p' * 4 < lin ?w p * 4 + 4) = (p' = p)"
      using lin_inj[OF ip p(1)] by auto
    have old: "maskArray s ! (lin ?w p' * 4) = (if p' \<in> ff_marked seg c s then 255 else 0)"
      using inv ip unfolding ff_inv_def by blast
    show "put4 (lin ?w p * 4) 255 255 255 255 (maskArray s) ! (lin ?w p' * 4)
        = (if p' \<in> insert p (ff_marked seg c s) then 255 else 0)"
      unfolding put4_white[OF k] e using old by simp
  qed
  have i3: "insert p (ff_marked seg c s) \<subseteq> region seg c seed"
    using inv preg unfolding ff_inv_def by simp
  have i4: "\<forall>q'\<in>set (rest @ ?nb). in_image ?w ?h q' \<and> class_at seg q' = c \<longrightarrow> q' \<in> region seg c seed"
  proof (intro ballI impI)
    fix q' assume a: "q' \<in> set (rest @ ?nb)" "in_image ?w ?h q' \<and> class_at seg q' = c"
    show "q' \<in> region seg c seed"
    proof (cases "q' \<in> set rest")
      case True
      then show ?thesis using inv q a(2) unfolding ff_inv_def by simp
    next
      case False
      then have "adjacent4 p q'" using a(1) by (auto simp: adjacent4_def)
      then show ?thesis using region.step[OF preg] a(2) by blast
    qed
  qed
  have i5: "in_image ?w ?h seed \<longrightarrow> seed \<in> set (rest @ ?nb) \<or> lin ?w seed \<in> insert (lin ?w p) (visited s)"
    using inv q unfolding ff_inv_def by auto
  have i6: "\<forall>p'\<in>insert p (ff_marked seg c s). \<forall>q'. adjacent4 p' q' \<and> in_image ?w ?h q'
          \<longrightarrow> q' \<in> set (rest @ ?nb) \<or> lin ?w q' \<in> insert (lin ?w p) (visited s)"
  proof (intro ballI allI impI)
    fix p' q' assume a: "p' \<in> insert p (ff_marked seg c s)" "adjacent4 p' q' \<and> in_image ?w ?h q'"
    show "q' \<in> set (rest @ ?nb) \<or> lin ?w q' \<in> insert (lin ?w p) (visited s)"
    proof (cases "p' = p")
      case True
      then show ?thesis using a(2) by (auto simp: adjacent4_def)
    next
      case False
      then have "p' \<in> ff_marked seg c s" using a(1) by simp
      with inv a(2) have "q' \<in> set (queue s) \<or> lin ?w q' \<in> visited s"
        unfolding ff_inv_def by blast
      then show ?thesis using q by auto
    qed
  qed
  show ?thesis
    unfolding ff_inv_def m using i1 i2 i3 i4 i5 i6 by simp
qed

lemma ff_inv_step:
  assumes inv: "ff_inv seg c seed s" and ne: "queue s \<noteq> []"
  shows "ff_inv seg c seed (ff_step (data seg) (width seg) (height seg) (Some c) s)"
proof -
  obtain p rest where q: "queue s = p # rest" using ne by (cases "queue s") auto
  from q show ?thesis
  proof (cases rule: ff_step_cases[where w = "width seg" and h = "height seg" and dat = "data seg"
        and t = "Some c"])
    case oob
    then show ?thesis using ff_inv_pop[OF inv q] by simp
  next
    case seen
    then show ?thesis using ff_inv_pop[OF inv q] by simp
  next
    case hit
    then have "class_at seg p = c" by (simp add: class_at_lin[OF hit(1)])
    then show ?thesis using ff_inv_hit[OF inv q hit(1)] hit(4) by simp
  next
    case miss
    then have "class_at seg p \<noteq> c" by (simp add: class_at_lin[OF miss(1)])
    then show ?thesis using ff_inv_miss[OF inv q miss(1)] miss(4) by simp
  qed
qed

lemma ff_inv_init:
  "ff_inv seg c seed (ff_init (replicate (4 * width seg * height seg) 0) (fst seed) (snd seed))"
proof -
  have m: "ff_marked seg c (ff_init (replicate (4 * width seg * height seg) 0) (fst seed) (snd seed)) = {}"
    by (simp add: ff_marked_def ff_init_def)
  have z: "\<And>p. in_image (width seg) (height seg) p \<Longrightarrow>
      replicate (4 * width seg * height seg) (0::byte) ! (lin (width seg) p * 4) = 0"
    using lin_less by (intro nth_replicate) fastforce
  show ?thesis
    unfolding ff_inv_def m using z
    by (auto simp: ff_init_def intro: region.seed)
qed

lemma ff_inv_final:
  assumes inv: "ff_inv seg c seed s" and e: "queue s = []"
  shows "ff_marked seg c s = region seg c seed"
proof
  show "ff_marked seg c s \<subseteq> region seg c seed" using inv by (simp add: ff_inv_def)
  show "region seg c seed \<subseteq> ff_marked seg c s"
  proof
    fix p assume "p \<in> region seg c seed"
    then show "p \<in> ff_marked seg c s"
    proof (induction rule: region.induct)
      case seed
      then show ?case using inv e by (simp add: ff_inv_def ff_marked_def)
    next
      case (step p q)
      from inv have i6: "\<forall>p\<in>ff_marked seg c s. \<forall>q. adjacent4 p q \<and> in_image (width seg) (height seg) q
          \<longrightarrow> q \<in> set (queue s) \<or> lin (width seg) q \<in> visited s"
        unfolding ff_inv_def by blast
      from i6 step.IH step.hyps(2,3) have "q \<in> set (queue s) \<or> lin (width seg) q \<in> visited s"
        by blast
      then have "lin (width seg) q \<in> visited s" using e by simp
      then show ?case using step.hyps by (simp add: ff_marked_def)
    qed
  qed
qed

lemma ff_loop_result:
  "\<exists>k\<le>4 * w * h + 1.
      queue ((ff_step dat w h t ^^ k) (ff_init m0 sx sy)) = []
    \<and> while_option (\<lambda>s. queue s \<noteq> []) (ff_step dat w h t) (ff_init m0 sx sy)
        = Some ((ff_step dat w h t ^^ k) (ff_init m0 sx sy))"
proof -
  let ?c = "ff_step dat w h t" and ?b = "\<lambda>s. queue s \<noteq> []" and ?s = "ff_init m0 sx sy"
  have "ff_potential w h ?s \<le> 4 * w * h + 1"
    by (simp add: ff_potential_def ff_init_def)
  from ff_drains[OF this] obtain k0 where k0: "k0 \<le> 4 * w * h + 1" "\<not> ?b ((?c ^^ k0) ?s)"
    by blast
  define k where "k = (LEAST k. \<not> ?b ((?c ^^ k) ?s))"
  have kb: "\<not> ?b ((?c ^^ k) ?s)" unfolding k_def using k0(2) by (rule LeastI)
  have kle: "k \<le> k0" unfolding k_def using k0(2) by (rule Least_le)
  have "while_option ?b ?c ?s = Some ((?c ^^ k) ?s)"
    unfolding while_option_def k_def using k0(2) by auto
  then show ?thesis
    using kb kle k0(1) by (intro exI[of _ k]) simp
qed

text \<open>
  Claim C10. For every class buffer, every width and height, every start coordinate and
  every target class, the loop of \<open>_findConnectedComponent\<close> stops: the queue is empty after
  at most \<open>4 * width * height + 1\<close> iterations, and the function returns the mask array
  reached there.
\<close>

theorem flood_fill_terminates:
  "\<exists>k\<le>4 * w * h + 1.
      queue ((ff_step dat w h t ^^ k) (ff_init m0 sx sy)) = []
    \<and> findConnectedComponent dat m0 w h sx sy t
        = Some (maskArray ((ff_step dat w h t ^^ k) (ff_init m0 sx sy)))"
  using ff_loop_result[of w h dat t m0 sx sy] by (auto simp: findConnectedComponent_def)

lemma ff_component:
  assumes "in_image (width seg) (height seg) seed"
  shows "\<exists>a. findConnectedComponent (data seg) (replicate (4 * width seg * height seg) 0)
              (width seg) (height seg) (fst seed) (snd seed) (Some c) = Some a
           \<and> length a = 4 * width seg * height seg
           \<and> (\<forall>p. in_image (width seg) (height seg) p \<longrightarrow>
                 a ! (lin (width seg) p * 4) = (if p \<in> region seg c seed then 255 else 0))"
proof -
  let ?b = "\<lambda>s. queue s \<noteq> []"
  let ?c = "ff_step (data seg) (width seg) (height seg) (Some c)"
  let ?s = "ff_init (replicate (4 * width seg * height seg) 0) (fst seed) (snd seed)"
  from ff_loop_result[of "width seg" "height seg" "data seg" "Some c" _ "fst seed" "snd seed"]
  obtain t where t: "while_option ?b ?c ?s = Some t" by blast
  have inv: "ff_inv seg c seed t"
    by (rule while_option_rule[where P = "ff_inv seg c seed", OF _ t ff_inv_init])
       (rule ff_inv_step, simp_all)
  have e: "queue t = []" using while_option_stop[OF t] by simp
  have m: "ff_marked seg c t = region seg c seed" by (rule ff_inv_final[OF inv e])
  show ?thesis
    using inv t unfolding ff_inv_def m
    by (intro exI[of _ "maskArray t"]) (simp add: findConnectedComponent_def)
qed

lemma px_local_blank: "px_local (\<lambda>i. put4 i 0 0 0 255)"
  unfolding px_local_def by (auto simp: nth_put4 nth_put4_frame)

lemma px_local_class: "px_local (class_px src)"
  unfolding px_local_def class_px_def Let_def by (auto simp: nth_put4 nth_put4_frame)

lemma selected_px_iff:
  "p \<in> selected_px m \<longleftrightarrow>
     in_image (width m) (height m) p \<and> data m ! (lin (width m) p * 4) > 128"
proof (cases "in_image (width m) (height m) p")
  case True
  then obtain a b where ab: "p = (int a, int b)" "a < width m" "b < height m"
    "lin (width m) p = b * width m + a" by (rule in_image_cases)
  show ?thesis using True ab by (simp add: selected_px_def is_sel_def)
next
  case False
  then show ?thesis by (auto simp: selected_px_def is_sel_def in_image_def)
qed

lemma seed_class:
  assumes "wf_image seg" "in_image (width seg) (height seg) (sx, sy)"
  shows "rd (data seg) ((sy * int (width seg) + sx) * 4) = Some (class_at seg (sx, sy))"
proof -
  from assms(2) obtain a b where ab: "(sx, sy) = (int a, int b)" "a < width seg" "b < height seg"
    "lin (width seg) (sx, sy) = b * width seg + a" by (rule in_image_cases)
  have "b * width seg + a < width seg * height seg" using in_grid_index[OF ab(2,3)] .
  then have n: "(b * width seg + a) * 4 < length (data seg)"
    using assms(1) by (simp add: wf_image_def)
  have eq: "(sy * int (width seg) + sx) * 4 = int ((b * width seg + a) * 4)"
    using ab(1) by simp
  have "rd (data seg) (int ((b * width seg + a) * 4)) = Some (data seg ! ((b * width seg + a) * 4))"
    unfolding rd_def using n by (simp only: of_nat_0_le_iff of_nat_less_iff nat_int if_True simp_thms)
  moreover have "class_at seg (sx, sy) = data seg ! nat (int ((b * width seg + a) * 4))"
    unfolding class_at_def fst_conv snd_conv eq ..
  ultimately show ?thesis unfolding eq by (simp only: nat_int)
qed

lemma blank_red:
  assumes "in_image w h p"
  shows "for_rgba 0 (length (replicate (4 * w * h) (0::byte))) (\<lambda>i. put4 i 0 0 0 255)
           (replicate (4 * w * h) 0) ! (lin w p * 4) = 0"
proof -
  have l: "lin w p < w * h" by (rule lin_less[OF assms])
  have "for_rgba 0 (length (replicate (4 * w * h) (0::byte))) (\<lambda>i. put4 i 0 0 0 255)
           (replicate (4 * w * h) 0) ! (4 * lin w p + 0) = put4 (4 * lin w p) 0 0 0 255 (replicate (4 * w * h) 0) ! (4 * lin w p + 0)"
    by (rule for_rgba_pixel[OF px_local_blank]) (use l in simp_all)
  then show ?thesis using l by (simp add: nth_put4 mult.commute)
qed

lemma class_red:
  assumes "in_image w h p" "length src = 4 * w * h"
  shows "for_rgba 0 (length src) (class_px src) (replicate (4 * w * h) 0) ! (lin w p * 4)
           = (if src ! (lin w p * 4) > 0 then 255 else 0)"
proof -
  have l: "lin w p < w * h" by (rule lin_less[OF assms(1)])
  have "for_rgba 0 (length src) (class_px src) (replicate (4 * w * h) 0) ! (4 * lin w p + 0)
          = class_px src (4 * lin w p) (replicate (4 * w * h) 0) ! (4 * lin w p + 0)"
    by (rule for_rgba_pixel[OF px_local_class]) (use l assms(2) in simp_all)
  then show ?thesis using l by (simp add: class_px_def Let_def nth_put4 mult.commute)
qed

lemma region_in_image: "p \<in> region seg c seed \<Longrightarrow> in_image (width seg) (height seg) p"
  by (induction rule: region.induct) auto

text \<open>
  Claim C1, as amended. For a well-formed segmentation and a click whose floored
  coordinates lie in the image: \<open>createClickMask\<close> of the connected-component module returns
  a mask, and its selected pixels are none when the class of the seed is 0, and otherwise
  exactly the pixels of the class of the seed reachable from the seed through 4-connected
  pixels of that class. \<open>createClickMask\<close> of the first module selects none when the
  class of the seed is 0, and otherwise every pixel of the image whose class is not 0.
\<close>

theorem click_mask_region:
  assumes "wf_image seg" "in_image (width seg) (height seg) (\<lfloor>clickX\<rfloor>, \<lfloor>clickY\<rfloor>)"
  shows "(\<exists>m. createClickMask seg clickX clickY = Some m
            \<and> selected_px m =
                (if class_at seg (\<lfloor>clickX\<rfloor>, \<lfloor>clickY\<rfloor>) = 0 then {}
                 else region seg (class_at seg (\<lfloor>clickX\<rfloor>, \<lfloor>clickY\<rfloor>)) (\<lfloor>clickX\<rfloor>, \<lfloor>clickY\<rfloor>)))
       \<and> selected_px (createClickMask_class seg clickX clickY) =
            (if class_at seg (\<lfloor>clickX\<rfloor>, \<lfloor>clickY\<rfloor>) = 0 then {}
             else {p. in_image (width seg) (height seg) p \<and> class_at seg p \<noteq> 0})"
proof -
  let ?seed = "(\<lfloor>clickX\<rfloor>, \<lfloor>clickY\<rfloor>)"
  let ?w = "width seg" and ?h = "height seg"
  have sc: "rd (data seg) ((\<lfloor>clickY\<rfloor> * int ?w + \<lfloor>clickX\<rfloor>) * 4) = Some (class_at seg ?seed)"
    by (rule seed_class[OF assms])
  have len: "length (data seg) = 4 * ?w * ?h" using assms(1) by (simp add: wf_image_def)
  show ?thesis
  proof (cases "class_at seg ?seed = 0")
    case True
    let ?m = "\<lparr>width = ?w, height = ?h,
         data = for_rgba 0 (length (replicate (4 * ?w * ?h) (0::byte))) (\<lambda>i. put4 i 0 0 0 255)
                  (replicate (4 * ?w * ?h) 0)\<rparr>"
    have e: "selected_px ?m = {}"
      using blank_red[of ?w ?h] by (auto simp: selected_px_iff)
    have "createClickMask seg clickX clickY = Some ?m"
      "createClickMask_class seg clickX clickY = ?m"
      using True sc by (simp_all add: createClickMask_def createClickMask_class_def Let_def)
    then show ?thesis using e True by simp
  next
    case False
    from ff_component[OF assms(2), of "class_at seg ?seed"] obtain a where
      a: "findConnectedComponent (data seg) (replicate (4 * ?w * ?h) 0) ?w ?h \<lfloor>clickX\<rfloor> \<lfloor>clickY\<rfloor>
            (Some (class_at seg ?seed)) = Some a"
      and px: "\<forall>p. in_image ?w ?h p \<longrightarrow>
                 a ! (lin ?w p * 4) = (if p \<in> region seg (class_at seg ?seed) ?seed then 255 else 0)"
      by auto
    have "createClickMask seg clickX clickY = Some \<lparr>width = ?w, height = ?h, data = a\<rparr>"
      using False sc a by (simp add: createClickMask_def Let_def)
    moreover have "selected_px \<lparr>width = ?w, height = ?h, data = a\<rparr>
        = region seg (class_at seg ?seed) ?seed"
    proof (intro set_eqI)
      fix p
      show "p \<in> selected_px \<lparr>width = ?w, height = ?h, data = a\<rparr>
              \<longleftrightarrow> p \<in> region seg (class_at seg ?seed) ?seed"
      proof (cases "in_image ?w ?h p")
        case True
        with px have "a ! (lin ?w p * 4)
            = (if p \<in> region seg (class_at seg ?seed) ?seed then 255 else 0)" by blast
        then show ?thesis using True by (simp add: selected_px_iff)
      next
        case False
        then show ?thesis using region_in_image[of p seg "class_at seg ?seed" ?seed]
          by (auto simp: selected_px_iff)
      qed
    qed
    moreover have "createClickMask_class seg clickX clickY
        = \<lparr>width = ?w, height = ?h,
           data = for_rgba 0 (length (data seg)) (class_px (data seg)) (replicate (4 * ?w * ?h) 0)\<rparr>"
      using False sc by (simp add: createClickMask_class_def Let_def)
    moreover have "selected_px \<lparr>width = ?w, height = ?h,
           data = for_rgba 0 (length (data seg)) (class_px (data seg)) (replicate (4 * ?w * ?h) 0)\<rparr>
        = {p. in_image ?w ?h p \<and> class_at seg p \<noteq> 0}"
      using class_red[OF _ len] class_at_lin[of seg ?h]
      by (auto simp: selected_px_iff word_gt_0)
    ultimately show ?thesis using False by simp
  qed
qed

theorem click_mask_region_witness:
  "wf_image seg3 \<and> in_image (width seg3) (height seg3) (\<lfloor>0::real\<rfloor>, \<lfloor>0::real\<rfloor>)
   \<and> (\<exists>m. createClickMask seg3 0 0 = Some m
            \<and> selected_px m =
                (if class_at seg3 (\<lfloor>0::real\<rfloor>, \<lfloor>0::real\<rfloor>) = 0 then {}
                 else region seg3 (class_at seg3 (\<lfloor>0::real\<rfloor>, \<lfloor>0::real\<rfloor>)) (\<lfloor>0::real\<rfloor>, \<lfloor>0::real\<rfloor>)))
   \<and> selected_px (createClickMask_class seg3 0 0) =
            (if class_at seg3 (\<lfloor>0::real\<rfloor>, \<lfloor>0::real\<rfloor>) = 0 then {}
             else {p. in_image (width seg3) (height seg3) p \<and> class_at seg3 p \<noteq> 0})"
proof -
  have h1: "wf_image seg3" by (simp add: wf_image_def seg3_def)
  have h2: "in_image (width seg3) (height seg3) (\<lfloor>0::real\<rfloor>, \<lfloor>0::real\<rfloor>)"
    by (simp add: in_image_def seg3_def)
  show ?thesis using h1 h2 click_mask_region[OF h1 h2] by blast
qed

lemma region_seg3: "p \<in> region seg3 255 (0, 0) \<Longrightarrow> p = (0, 0)"
proof (induction rule: region.induct)
  case seed
  show ?case by simp
next
  case (step p q)
  then show ?case
    by (auto simp: adjacent4_def in_image_def class_at_def seg3_def)
qed

theorem click_mask_region_counterexample:
  "is_sel (createClickMask_class seg3 0 0) 2 0
   \<and> (2, 0) \<notin> region seg3 (class_at seg3 (\<lfloor>0::real\<rfloor>, \<lfloor>0::real\<rfloor>)) (\<lfloor>0::real\<rfloor>, \<lfloor>0::real\<rfloor>)"
proof -
  have "is_sel (createClickMask_class seg3 0 0) 2 0" by code_simp
  moreover have "class_at seg3 (\<lfloor>0::real\<rfloor>, \<lfloor>0::real\<rfloor>) = 255" by code_simp
  moreover have "(2, 0) \<notin> region seg3 255 (0, 0)" using region_seg3 by fastforce
  ultimately show ?thesis by simp
qed


subsection \<open>The click handlers\<close>




lemma premul_zero [simp]: "premul c 0 = 0"
  by (simp add: premul_def)


lemma px_local_canvas: "px_local (canvas_px op src)"
  unfolding px_local_def
proof (intro allI conjI impI)
  fix i d show "length (canvas_px op src i d) = length d"
    by (simp add: canvas_px_def Let_def put4_def)
next
  fix i j :: nat and d :: "byte list" assume "j < i \<or> i + 4 \<le> j"
  then show "canvas_px op src i d ! j = d ! j"
    by (simp add: canvas_px_def Let_def nth_put4_frame)
next
  fix i k :: nat and d d' :: "byte list"
  assume a: "length d = length d' \<and> (\<forall>k. i \<le> k \<and> k < i + 4 \<longrightarrow> d ! k = d' ! k)
                 \<and> i \<le> k \<and> k < i + 4 \<and> k < length d"
  then have e: "d ! i = d' ! i" "d ! (i + 1) = d' ! (i + 1)" "d ! (i + 2) = d' ! (i + 2)"
    "d ! (i + 3) = d' ! (i + 3)" by simp_all
  have k: "k < length d" "k < length d'" "d ! k = d' ! k" using a by simp_all
  have p: "put4 i r g b al d ! k = put4 i r g b al d' ! k" for r g b al
    using k by (simp only: nth_put4)
  show "canvas_px op src i d ! k = canvas_px op src i d' ! k"
    unfolding canvas_px_def Let_def e
    by (simp only: p k(3) if_distrib[of "\<lambda>l. l ! k"])
qed

lemma canvas_draw_dims [simp]:
  "width (canvas_draw op src dst) = width dst" "height (canvas_draw op src dst) = height dst"
  "length (data (canvas_draw op src dst)) = length (data dst)"
  by (simp_all add: canvas_draw_def px_local_length[OF px_local_canvas])















text \<open>The three overlay colours of tools.js stay above the threshold once premultiplied.\<close>

lemma overlay_colours_premul:
  "(case green_bright of (g, b, al) \<Rightarrow> 50 < premul g al)
   \<and> (case green_dark of (g, b, al) \<Rightarrow> 50 < premul g al)
   \<and> (case green_plain of (g, b, al) \<Rightarrow> 50 < premul g al)"
  by code_simp




text \<open>
  On the compositor of this file a subtraction is not "the old selection without the
  region". app.js draws under \<open>destination-out\<close> an object mask that is opaque at every
  pixel, which clears selected pixels outside the region too. The enhanced app draws the
  green overlay, whose alpha is 240: the canvas pixel keeps alpha 14 and a green byte above
  the threshold of \<open>getMaskData\<close>, so the region is still read as selected.
\<close>

lemma subtract_clears_outside_region:
  "isInSelection (tools0 painted3b) 0 0
   \<and> hasSelection (createClickMask_class seg3 0 0)
   \<and> is_sel (getMaskData painted3b) 1 0 \<and> \<not> is_sel (createClickMask_class seg3 0 0) 1 0
   \<and> \<not> is_sel (getMaskData (maskCanvas
            (handleCanvasClick canvas_draw green_bright seg3 0 0 (tools0 painted3b)))) 1 0"
  by code_simp

lemma subtract_enhanced_keeps_region:
  "createClickMask seg3 0 0 = Some region3 \<and> is_sel region3 0 0
   \<and> data (canvas_draw DestinationOut (convertToGreenOverlay green_bright region3) painted3)
        = [0, 255, 55, 14, 0, 0, 0, 0, 0, 0, 0, 0]
   \<and> is_sel (getMaskData (maskCanvas (maskTools
          (the (handleCanvasClick_enhanced canvas_draw green_bright seg3 0 0
                 (app_plain\<lparr>isCtrlPressed := True\<rparr>)))))) 0 0"
  by code_simp

end
